theory Spec2Isabelle
  imports Main "HOL-Library.Multiset" "HOL-Library.Sublist"
begin

section \<open>The store of slomux.js\<close>

text \<open>
  The embedding follows \<^verbatim>\<open>src/slomux.js\<close>. \<^verbatim>\<open>createStore\<close> closes over two
  variables, \<^verbatim>\<open>currentState\<close> and the array \<^verbatim>\<open>listeners\<close>; every call of
  \<^verbatim>\<open>subscribe\<close> creates one more closure \<^verbatim>\<open>unsubscribe\<close> with its own captured
  \<^verbatim>\<open>listener\<close> and its own flag \<^verbatim>\<open>isSubscribed\<close>. These mutable variables are
  the fields of the record \<open>store\<close>, which every operation takes and returns.

  A callback is a function object: it is compared by reference (\<^verbatim>\<open>indexOf\<close> uses
  strict equality), so a callback is named by a number, its identity. What a callback does
  to the store when it is called is given by an environment \<open>B\<close>: it maps the identity
  of the callback and the store as the callback finds it (state, listeners, handles and the
  history of the run) to the calls of the store's interface that the callback makes, in
  order. A callback returns normally unless one of these calls throws.

  An exception is a value: every operation returns a completion (normal, or the error
  thrown) together with the store as the exception leaves it.
\<close>

datatype error =
    TypeError       \<comment> \<open>raised by the engine: property access on \<^verbatim>\<open>undefined\<close>, call of a non-function\<close>
  | RangeError      \<comment> \<open>raised by the engine: call stack exhausted\<close>
  | Thrown string   \<comment> \<open>thrown by a function the caller supplied, with its message\<close>

datatype completion = Normal | Throw error

type_synonym fn = nat

datatype 'a cmd =
    Subscribe fn      \<comment> \<open>\<^verbatim>\<open>store.subscribe(f)\<close>\<close>
  | Unsubscribe nat   \<comment> \<open>call of the handle that the \<open>h\<close>-th call of \<^verbatim>\<open>subscribe\<close> returned\<close>
  | Dispatch 'a       \<comment> \<open>\<^verbatim>\<open>store.dispatch(action)\<close>\<close>
  | Raise string      \<comment> \<open>\<^verbatim>\<open>throw\<close> of an error with the given message\<close>
  | GetState          \<comment> \<open>\<^verbatim>\<open>store.getState()\<close>\<close>

text \<open>
  The field \<open>trace\<close> is an observation log and not a variable of the program: it records,
  in order, each action whose transition was computed and stored, and each call of a
  listener. A call is recorded with the notification pass that makes it: the pass is named
  by the room that the call stack has left while it runs (see \<open>dispatch\<close> below), so the
  calls of a pass and the calls of the passes of dispatches nested in it carry different
  numbers.
\<close>

datatype 'a event = Accepted 'a | Called nat fn

record subscription =
  listener :: fn
  isSubscribed :: bool

record ('s, 'a) store =
  currentState :: 's
  listeners :: "fn list"
  subscriptions :: "subscription list"
  trace :: "'a event list"

subsection \<open>Array primitives\<close>

text \<open>\<^verbatim>\<open>Array.prototype.indexOf\<close>: the first index holding the value, or \<open>-1\<close>.\<close>

fun indexOf :: "'x list \<Rightarrow> 'x \<Rightarrow> int" where
  "indexOf [] x = - 1"
| "indexOf (y # ys) x =
     (if y = x then 0
      else (let i = indexOf ys x in if i < 0 then - 1 else i + 1))"

text \<open>
  \<^verbatim>\<open>Array.prototype.splice(start, deleteCount)\<close> with no items to insert: a negative
  start counts from the end, and both the start and the count are clamped to the array.
\<close>

definition splice_array :: "int \<Rightarrow> int \<Rightarrow> 'x list \<Rightarrow> 'x list" where
  "splice_array start deleteCount xs =
     (let len = int (length xs);
          actualStart = (if start < 0 then max (len + start) 0 else min start len);
          actualDeleteCount = min (max deleteCount 0) (len - actualStart)
      in take (nat actualStart) xs @ drop (nat (actualStart + actualDeleteCount)) xs)"

subsection \<open>createStore, getState, subscribe, unsubscribe\<close>

definition createStore :: "'s \<Rightarrow> ('s, 'a) store" where
  "createStore initialState =
     \<lparr>currentState = initialState, listeners = [], subscriptions = [], trace = []\<rparr>"

definition getState :: "('s, 'a) store \<Rightarrow> 's" where
  "getState st = currentState st"

text \<open>
  \<^verbatim>\<open>subscribe\<close> pushes the callback and returns a new closure; the result is the index of
  that closure among those created so far, and the store.
\<close>

definition subscribe :: "fn \<Rightarrow> ('s, 'a) store \<Rightarrow> nat \<times> ('s, 'a) store" where
  "subscribe f st =
     (length (subscriptions st),
      st\<lparr>listeners := listeners st @ [f],
         subscriptions := subscriptions st @ [\<lparr>listener = f, isSubscribed = True\<rparr>]\<rparr>)"

text \<open>
  Calling a handle that no call of \<^verbatim>\<open>subscribe\<close> has returned is a call of
  \<^verbatim>\<open>undefined\<close>.
\<close>

definition unsubscribe :: "nat \<Rightarrow> ('s, 'a) store \<Rightarrow> completion \<times> ('s, 'a) store" where
  "unsubscribe h st =
     (if h < length (subscriptions st) then
        (let sub = subscriptions st ! h in
         if \<not> isSubscribed sub then (Normal, st)
         else (Normal,
               st\<lparr>subscriptions := (subscriptions st)[h := sub\<lparr>isSubscribed := False\<rparr>],
                  listeners := splice_array (indexOf (listeners st) (listener sub)) 1 (listeners st)\<rparr>))
      else (Throw TypeError, st))"

subsection \<open>dispatch\<close>

text \<open>
  \<^verbatim>\<open>dispatch\<close> calls the reducer \<open>R\<close>, assigns its result, and runs
  \<^verbatim>\<open>listeners.forEach\<close>. \<^verbatim>\<open>Array.prototype.forEach\<close> reads the length once, before
  the first call; it then visits the indices \<open>0, 1, ...\<close> below that length, and at each
  index calls the callback on the element that the array holds at that moment, if the
  index is still inside the array.

  A callback may call \<^verbatim>\<open>dispatch\<close> again. The first argument after the environment is
  the number of nested calls of \<^verbatim>\<open>dispatch\<close> that the call stack still has room for; a
  call with no room left raises \<open>RangeError\<close>. \<open>exec\<close> runs the body of a callback (or
  of a client): a list of calls of the store's interface and of \<^verbatim>\<open>throw\<close> statements. It
  stops at the first exception, which \<^verbatim>\<open>forEach\<close> and \<^verbatim>\<open>dispatch\<close> pass on to their
  caller, since neither has a \<^verbatim>\<open>try\<close>.
\<close>

function dispatch ::
    "('s \<Rightarrow> 'a \<Rightarrow> error + 's) \<Rightarrow> (fn \<Rightarrow> ('s, 'a) store \<Rightarrow> 'a cmd list) \<Rightarrow> nat \<Rightarrow> 'a \<Rightarrow> ('s, 'a) store
       \<Rightarrow> completion \<times> ('s, 'a) store"
  and forEach ::
    "('s \<Rightarrow> 'a \<Rightarrow> error + 's) \<Rightarrow> (fn \<Rightarrow> ('s, 'a) store \<Rightarrow> 'a cmd list) \<Rightarrow> nat \<Rightarrow> nat \<Rightarrow> nat \<Rightarrow> ('s, 'a) store
       \<Rightarrow> completion \<times> ('s, 'a) store"
  and exec ::
    "('s \<Rightarrow> 'a \<Rightarrow> error + 's) \<Rightarrow> (fn \<Rightarrow> ('s, 'a) store \<Rightarrow> 'a cmd list) \<Rightarrow> nat \<Rightarrow> 'a cmd list \<Rightarrow> ('s, 'a) store
       \<Rightarrow> completion \<times> ('s, 'a) store"
where
  "dispatch R B 0 action st = (Throw RangeError, st)"
| "dispatch R B (Suc n) action st =
     (case R (currentState st) action of
        Inl e \<Rightarrow> (Throw e, st)
      | Inr s \<Rightarrow>
          forEach R B n 0 (length (listeners st))
            (st\<lparr>currentState := s, trace := trace st @ [Accepted action]\<rparr>))"
| "forEach R B n k len st =
     (if k < len then
        (if k < length (listeners st) then
           (case exec R B n
                   (B (listeners st ! k) (st\<lparr>trace := trace st @ [Called n (listeners st ! k)]\<rparr>))
                   (st\<lparr>trace := trace st @ [Called n (listeners st ! k)]\<rparr>) of
              (Normal, st') \<Rightarrow> forEach R B n (Suc k) len st'
            | (Throw e, st') \<Rightarrow> (Throw e, st'))
         else forEach R B n (Suc k) len st)
      else (Normal, st))"
| "exec R B n [] st = (Normal, st)"
| "exec R B n (Subscribe f # cs) st = exec R B n cs (snd (subscribe f st))"
| "exec R B n (Unsubscribe h # cs) st =
     (case unsubscribe h st of
        (Normal, st') \<Rightarrow> exec R B n cs st'
      | (Throw e, st') \<Rightarrow> (Throw e, st'))"
| "exec R B n (Dispatch action # cs) st =
     (case dispatch R B n action st of
        (Normal, st') \<Rightarrow> exec R B n cs st'
      | (Throw e, st') \<Rightarrow> (Throw e, st'))"
| "exec R B n (Raise m # cs) st = (Throw (Thrown m), st)"
| "exec R B n (GetState # cs) st = exec R B n cs st"
  by pat_completeness auto

termination
  by (relation "inv_image (less_than <*lex*> less_than <*lex*> less_than)
        (\<lambda>x. case x of
           Inl (R, B, n, action, st) \<Rightarrow> (n, 0::nat, 0::nat)
         | Inr (Inl (R, B, n, k, len, st)) \<Rightarrow> (n, 2, len - k)
         | Inr (Inr (R, B, n, cs, st)) \<Rightarrow> (n, 1, length cs))")
     auto

declare forEach.simps [simp del]

subsection \<open>What a callback does\<close>

text \<open>
  The callbacks that a body registers, in order, and the actions that it dispatches itself,
  in order; whether a statement changes the listener collection or dispatches; whether it
  only reads; whether it only reads or subscribes; whether it dispatches.
\<close>

fun subscribed :: "'a cmd list \<Rightarrow> fn list" where
  "subscribed [] = []"
| "subscribed (Subscribe f # cs) = f # subscribed cs"
| "subscribed (Unsubscribe h # cs) = subscribed cs"
| "subscribed (Dispatch action # cs) = subscribed cs"
| "subscribed (Raise m # cs) = subscribed cs"
| "subscribed (GetState # cs) = subscribed cs"


fun mutates :: "'a cmd \<Rightarrow> bool" where
  "mutates (Subscribe f) = True"
| "mutates (Unsubscribe h) = True"
| "mutates (Dispatch action) = True"
| "mutates (Raise m) = False"
| "mutates GetState = False"

fun reads :: "'a cmd \<Rightarrow> bool" where
  "reads (Subscribe f) = False"
| "reads (Unsubscribe h) = False"
| "reads (Dispatch action) = False"
| "reads (Raise m) = False"
| "reads GetState = True"

fun reads_or_subscribes :: "'a cmd \<Rightarrow> bool" where
  "reads_or_subscribes (Subscribe f) = True"
| "reads_or_subscribes (Unsubscribe h) = False"
| "reads_or_subscribes (Dispatch action) = False"
| "reads_or_subscribes (Raise m) = False"
| "reads_or_subscribes GetState = True"

fun dispatches :: "'a cmd \<Rightarrow> bool" where
  "dispatches (Subscribe f) = False"
| "dispatches (Unsubscribe h) = False"
| "dispatches (Dispatch action) = True"
| "dispatches (Raise m) = False"
| "dispatches GetState = False"


fun calls_of :: "nat \<Rightarrow> 'a event list \<Rightarrow> fn list" where
  "calls_of n [] = []"
| "calls_of n (Accepted action # es) = calls_of n es"
| "calls_of n (Called m f # es) = (if m = n then f # calls_of n es else calls_of n es)"

text \<open>Every call recorded in a trace was made by a pass below \<open>lvl\<close>.\<close>

fun quiet_from :: "nat \<Rightarrow> 'a event list \<Rightarrow> bool" where
  "quiet_from lvl [] = True"
| "quiet_from lvl (Accepted action # es) = quiet_from lvl es"
| "quiet_from lvl (Called m f # es) = (m < lvl \<and> quiet_from lvl es)"

text \<open>A reducer that never throws, from a total function.\<close>

definition pure_reducer :: "('s \<Rightarrow> 'a \<Rightarrow> 's) \<Rightarrow> 's \<Rightarrow> 'a \<Rightarrow> error + 's" where
  "pure_reducer r s action = Inr (r s action)"

text \<open>
  The calls that a client makes from outside, one per event of the event loop: each call
  runs on its own stack, so a call that ends in an exception does not keep the next one
  from running. The result is the store after the last call.
\<close>

definition run_events ::
    "('s \<Rightarrow> 'a \<Rightarrow> error + 's) \<Rightarrow> (fn \<Rightarrow> ('s, 'a) store \<Rightarrow> 'a cmd list) \<Rightarrow> nat \<Rightarrow> 'a cmd list
       \<Rightarrow> ('s, 'a) store \<Rightarrow> ('s, 'a) store" where
  "run_events R B n cs st = foldl (\<lambda>st' c. snd (exec R B n [c] st')) st cs"

section \<open>The sample reducer\<close>

text \<open>
  The state of the sample application is an array, and an array has an identity. The state
  is therefore a reference into a heap of arrays: the reference of an array is its index
  in \<open>heap\<close>, allocation appends a cell, and \<open>ref\<close> is \<open>None\<close> for
  \<^verbatim>\<open>undefined\<close>. The heap travels with the reference, since the reducer is the only
  code that allocates in it. \<^verbatim>\<open>[...state, action.payload]\<close> allocates a new array; the
  default branch returns the reference it was given. The default parameter
  \<^verbatim>\<open>state = []\<close> allocates an empty array when the state is \<^verbatim>\<open>undefined\<close>. A
  reference that points outside the heap does not arise in a run; spreading it is the
  \<open>TypeError\<close> of spreading a value that is not iterable.
\<close>

record 'v action =
  type :: string
  payload :: 'v

record 'v state =
  heap :: "'v list list"
  ref :: "nat option"

definition ADD_TODO :: string where
  "ADD_TODO = ''ADD_TODO''"

definition addTodo :: "'v \<Rightarrow> 'v action" where
  "addTodo todo = \<lparr>type = ADD_TODO, payload = todo\<rparr>"

definition alloc :: "'v list \<Rightarrow> 'v list list \<Rightarrow> nat \<times> 'v list list" where
  "alloc xs h = (length h, h @ [xs])"

definition reducer :: "'v state \<Rightarrow> 'v action \<Rightarrow> error + 'v state" where
  "reducer s action =
     (let (r, h) = (case ref s of None \<Rightarrow> alloc [] (heap s) | Some r \<Rightarrow> (r, heap s))
      in if type action = ADD_TODO then
           (if r < length h then
              (let (r', h') = alloc (h ! r @ [payload action]) h
               in Inr \<lparr>heap = h', ref = Some r'\<rparr>)
            else Inl TypeError)
         else Inr \<lparr>heap = h, ref = Some r\<rparr>)"

section \<open>connect\<close>

text \<open>
  An instance of the class that \<^verbatim>\<open>connect\<close> returns has \<^verbatim>\<open>this.context.store\<close>
  (\<open>None\<close> when no Provider encloses the instance: the property is
  \<^verbatim>\<open>undefined\<close>), \<^verbatim>\<open>this.props\<close> and \<^verbatim>\<open>this.unsubscribe\<close>. A props object is a
  map from property names to values; a property can be present with the value
  \<^verbatim>\<open>undefined\<close>. Spreading \<open>a\<close> and then \<open>b\<close> is \<open>a ++ b\<close>. The function
  \<^verbatim>\<open>store.dispatch\<close> handed to \<^verbatim>\<open>mapDispatchToProps\<close> is represented by the store it
  belongs to.
\<close>

datatype 'x jsval = Undefined | Value 'x

record ('s, 'a, 'v) connected =
  context_store :: "('s, 'a) store option"
  props :: "string \<rightharpoonup> 'v"
  unsubscribe_field :: "nat option"

text \<open>
  The JSX element \<^verbatim>\<open><Component {...a} {...b} />\<close> is the call
  \<^verbatim>\<open>React.createElement(Component, _extends({}, a, b))\<close>. \<^verbatim>\<open>createElement\<close> belongs
  to React and not to this repository; the definition follows
  \<^verbatim>\<open>ReactElement.createElement\<close> of React 15, the release line that still has
  \<^verbatim>\<open>React.PropTypes\<close>, which the source uses. It copies every property of the config
  except the reserved names, and then, for each name in the component's
  \<^verbatim>\<open>defaultProps\<close>, puts the default where the prop is absent or \<^verbatim>\<open>undefined\<close>. A
  component is the view with its \<^verbatim>\<open>defaultProps\<close> (empty when it has none). Of the
  element, the model keeps its type and its props, which are what the view is called with.
\<close>

record ('c, 'x) component =
  view :: 'c
  defaultProps :: "string \<rightharpoonup> 'x jsval"

definition RESERVED_PROPS :: "string set" where
  "RESERVED_PROPS = {''key'', ''ref'', ''__self'', ''__source''}"

definition createElement ::
    "('c, 'x) component \<Rightarrow> (string \<rightharpoonup> 'x jsval)
      \<Rightarrow> ('c, 'x) component \<times> (string \<rightharpoonup> 'x jsval)" where
  "createElement Component config =
     (Component,
      (\<lambda>propName.
         (let p = (if propName \<in> RESERVED_PROPS then None else config propName)
          in case defaultProps Component propName of
               None \<Rightarrow> p
             | Some d \<Rightarrow> (if p = None \<or> p = Some Undefined then Some d else p))))"

definition render ::
    "('s \<Rightarrow> (string \<rightharpoonup> 'x jsval) \<Rightarrow> error + (string \<rightharpoonup> 'x jsval))
      \<Rightarrow> (('s, 'a) store \<Rightarrow> (string \<rightharpoonup> 'x jsval) \<Rightarrow> error + (string \<rightharpoonup> 'x jsval))
      \<Rightarrow> ('c, 'x) component \<Rightarrow> ('s, 'a, 'x jsval) connected
      \<Rightarrow> error + ('c, 'x) component \<times> (string \<rightharpoonup> 'x jsval)" where
  "render mapStateToProps mapDispatchToProps Component this =
     (case context_store this of
        None \<Rightarrow> Inl TypeError
      | Some st \<Rightarrow>
          (case mapStateToProps (getState st) (props this) of
             Inl e \<Rightarrow> Inl e
           | Inr stateProps \<Rightarrow>
               (case mapDispatchToProps st (props this) of
                  Inl e \<Rightarrow> Inl e
                | Inr dispatchProps \<Rightarrow>
                    Inr (createElement Component (stateProps ++ dispatchProps)))))"

definition componentDidMount ::
    "fn \<Rightarrow> ('s, 'a, 'v) connected \<Rightarrow> error + ('s, 'a, 'v) connected" where
  "componentDidMount handleChange this =
     (case context_store this of
        None \<Rightarrow> Inl TypeError
      | Some st \<Rightarrow>
          (let (h, st') = subscribe handleChange st
           in Inr (this\<lparr>context_store := Some st', unsubscribe_field := Some h\<rparr>)))"

section \<open>Predicates on stores and example inputs\<close>

text \<open>
  A handle is dead once its flag \<^verbatim>\<open>isSubscribed\<close> is false. A store is consistent when
  the listener array holds, up to order, exactly the callbacks of the handles that are
  still subscribed.
\<close>

definition dead :: "nat \<Rightarrow> ('s, 'a) store \<Rightarrow> bool" where
  "dead h st \<longleftrightarrow> h < length (subscriptions st) \<and> \<not> isSubscribed (subscriptions st ! h)"

definition consistent :: "('s, 'a) store \<Rightarrow> bool" where
  "consistent st \<longleftrightarrow>
     mset (listeners st) = mset (map listener (filter isSubscribed (subscriptions st)))"

text \<open>
  A call is idle in a store when it cannot change it: a read, or the call of a dead handle.
  \<open>grow\<close> is the store after the given callbacks have been subscribed, in order.
\<close>

fun idle :: "subscription list \<Rightarrow> 'a cmd \<Rightarrow> bool" where
  "idle subs (Subscribe f) = False"
| "idle subs (Unsubscribe h) = (h < length subs \<and> \<not> isSubscribed (subs ! h))"
| "idle subs (Dispatch action) = False"
| "idle subs (Raise m) = False"
| "idle subs GetState = True"

definition grow :: "fn list \<Rightarrow> ('s, 'a) store \<Rightarrow> ('s, 'a) store" where
  "grow fs st =
     st\<lparr>listeners := listeners st @ fs,
        subscriptions := subscriptions st @ map (\<lambda>f. \<lparr>listener = f, isSubscribed = True\<rparr>) fs\<rparr>"

text \<open>
  Stores, reducers and callbacks on which the theorems below are evaluated. The state is a
  counter, the action carries nothing, and the callbacks \<open>0\<close>, \<open>1\<close>, \<open>2\<close> are
  subscribed in that order, so that the handle of callback \<open>i\<close> is \<open>i\<close>.
\<close>

definition count_actions :: "nat \<Rightarrow> unit \<Rightarrow> error + nat" where
  "count_actions = pure_reducer (\<lambda>s action. Suc s)"

definition failing_reducer :: "nat \<Rightarrow> unit \<Rightarrow> error + nat" where
  "failing_reducer s action = Inl (Thrown ''boom'')"

definition two_listeners :: "(nat, unit) store" where
  "two_listeners = snd (subscribe 1 (snd (subscribe 0 (createStore 0))))"

definition three_listeners :: "(nat, unit) store" where
  "three_listeners = snd (subscribe 2 two_listeners)"

definition readers :: "fn \<Rightarrow> (nat, unit) store \<Rightarrow> unit cmd list" where
  "readers f st = [GetState]"

definition self_removing :: "fn \<Rightarrow> (nat, unit) store \<Rightarrow> unit cmd list" where
  "self_removing f st = (if f = 0 then [Unsubscribe 0] else [])"

definition replacing :: "fn \<Rightarrow> (nat, unit) store \<Rightarrow> unit cmd list" where
  "replacing f st = (if f = 0 then [Unsubscribe 0, Subscribe 7] else [])"

definition adding :: "fn \<Rightarrow> (nat, unit) store \<Rightarrow> unit cmd list" where
  "adding f st = (if f = 0 then [Subscribe 7] else [])"

text \<open>
  A callback that throws; a callback that subscribes \<open>7\<close> and then dispatches, the first
  time it is called; and the store in which callback \<open>0\<close> was subscribed twice and the
  handle of the second subscription was called.
\<close>

definition throwing :: "fn \<Rightarrow> (nat, unit) store \<Rightarrow> unit cmd list" where
  "throwing f st = (if f = 1 then [Raise ''boom''] else [GetState])"

definition nesting :: "fn \<Rightarrow> (nat, unit) store \<Rightarrow> unit cmd list" where
  "nesting f st =
     (if f = 0 \<and> length (listeners st) = 2 then [Subscribe 7, Dispatch ()] else [])"

definition dup_store :: "(nat, unit) store" where
  "dup_store =
     run_events count_actions readers 1 [Subscribe 0, Subscribe 1, Subscribe 0, Unsubscribe 2]
       (createStore 0)"

text \<open>
  The store of the sample application as \<^verbatim>\<open>createStore(reducer, [])\<close> builds it (the
  array literal is cell \<open>0\<close> of the heap), the store that \<^verbatim>\<open>createStore(reducer)\<close>
  builds, whose state is \<^verbatim>\<open>undefined\<close>, callbacks that do nothing, an action of a type
  that the reducer does not know, a view without and a view with \<^verbatim>\<open>defaultProps\<close>, two
  mapping functions, and a connected instance with and without a store in its context.
\<close>

definition todo_store :: "(string state, string action) store" where
  "todo_store = createStore \<lparr>heap = [[]], ref = Some 0\<rparr>"

definition undefined_store :: "(string state, string action) store" where
  "undefined_store = createStore \<lparr>heap = [], ref = None\<rparr>"

definition no_callbacks ::
    "fn \<Rightarrow> (string state, string action) store \<Rightarrow> string action cmd list" where
  "no_callbacks f st = []"

definition PING :: "string action" where
  "PING = \<lparr>type = ''PING'', payload = ''''\<rparr>"

definition plain_view :: "(unit, string) component" where
  "plain_view = \<lparr>view = (), defaultProps = Map.empty\<rparr>"

definition labelled_view :: "(unit, string) component" where
  "labelled_view = \<lparr>view = (), defaultProps = [''label'' \<mapsto> Value ''none'']\<rparr>"

definition state_props ::
    "nat \<Rightarrow> (string \<rightharpoonup> string jsval) \<Rightarrow> error + (string \<rightharpoonup> string jsval)" where
  "state_props s ownProps =
     Inr [''todos'' \<mapsto> Value ''from state'', ''title'' \<mapsto> Value ''from state'']"

definition keyed_props ::
    "nat \<Rightarrow> (string \<rightharpoonup> string jsval) \<Rightarrow> error + (string \<rightharpoonup> string jsval)" where
  "keyed_props s ownProps =
     Inr [''key'' \<mapsto> Value ''k1'', ''title'' \<mapsto> Value ''from state'',
          ''label'' \<mapsto> Undefined]"

definition dispatch_props ::
    "(nat, unit) store \<Rightarrow> (string \<rightharpoonup> string jsval) \<Rightarrow> error + (string \<rightharpoonup> string jsval)" where
  "dispatch_props st ownProps = Inr [''title'' \<mapsto> Value ''from dispatch'']"

definition provided :: "(nat, unit, string jsval) connected" where
  "provided = \<lparr>context_store = Some two_listeners, props = [''extra'' \<mapsto> Value ''own''],
               unsubscribe_field = None\<rparr>"

definition orphan :: "(nat, unit, string jsval) connected" where
  "orphan = \<lparr>context_store = None, props = [''extra'' \<mapsto> Value ''own''],
             unsubscribe_field = None\<rparr>"

text \<open>
  The state reference of the store is a valid reference above \<open>r\<close>.
\<close>

definition beyond :: "nat \<Rightarrow> ('v state, 'a) store \<Rightarrow> bool" where
  "beyond r st \<longleftrightarrow>
     (case ref (currentState st) of
        None \<Rightarrow> False
      | Some r' \<Rightarrow> r < r' \<and> r' < length (heap (currentState st)))"

section \<open>Properties of the array primitives\<close>

lemma indexOf_notin: "x \<notin> set xs \<Longrightarrow> indexOf xs x = - 1"
  by (induction xs) (auto simp: Let_def)

lemma indexOf_in: "x \<in> set xs \<Longrightarrow> 0 \<le> indexOf xs x \<and> indexOf xs x < int (length xs)"
  by (induction xs) (auto simp: Let_def)

lemma splice_array_one:
  "0 \<le> i \<Longrightarrow> i < int (length xs) \<Longrightarrow>
     splice_array i 1 xs = take (nat i) xs @ drop (Suc (nat i)) xs"
  by (simp add: splice_array_def Let_def min_def max_def nat_add_distrib)

lemma remove_at_indexOf:
  "x \<in> set xs \<Longrightarrow>
     take (nat (indexOf xs x)) xs @ drop (Suc (nat (indexOf xs x))) xs = remove1 x xs"
proof (induction xs)
  case Nil
  then show ?case by simp
next
  case (Cons y ys)
  show ?case
  proof (cases "y = x")
    case True
    then show ?thesis by simp
  next
    case False
    with Cons.prems have mem: "x \<in> set ys" by simp
    have "nat (indexOf ys x + 1) = Suc (nat (indexOf ys x))"
      using indexOf_in [OF mem] by linarith
    with False mem Cons.IH indexOf_in [OF mem] show ?thesis
      by (simp add: Let_def)
  qed
qed

text \<open>
  \<^verbatim>\<open>listeners.splice(listeners.indexOf(listener), 1)\<close> removes the first slot that holds
  the callback; when no slot holds it, the index is \<open>-1\<close> and the last slot goes.
\<close>

lemma splice_indexOf_in: "x \<in> set xs \<Longrightarrow> splice_array (indexOf xs x) 1 xs = remove1 x xs"
  using indexOf_in [of x xs] by (simp add: splice_array_one remove_at_indexOf)

lemma splice_indexOf_notin: "x \<notin> set xs \<Longrightarrow> splice_array (indexOf xs x) 1 xs = butlast xs"
  by (cases "xs = []")
     (auto simp: indexOf_notin splice_array_def Let_def butlast_conv_take nat_diff_distrib max_def)

section \<open>Invariants of the store\<close>

text \<open>
  A property of the store that \<^verbatim>\<open>subscribe\<close>, \<^verbatim>\<open>unsubscribe\<close>, the assignment of an
  accepted transition and the call of a listener each keep, holds after any run of
  \<^verbatim>\<open>dispatch\<close>, of the notification loop and of a list of calls, whatever the callbacks
  do and however the run ends.
\<close>

lemma preserved:
  fixes P :: "('s, 'a) store \<Rightarrow> bool"
  assumes sub: "\<And>f st. P st \<Longrightarrow> P (snd (subscribe f st))"
    and unsub: "\<And>h st. P st \<Longrightarrow> P (snd (unsubscribe h st))"
    and call: "\<And>st n f. P st \<Longrightarrow> P (st\<lparr>trace := trace st @ [Called n f]\<rparr>)"
  shows
    "\<forall>st a s. P st \<longrightarrow> R (currentState st) a = Inr s \<longrightarrow>
         P (st\<lparr>currentState := s, trace := trace st @ [Accepted a]\<rparr>) \<Longrightarrow>
     P st \<Longrightarrow> P (snd (dispatch R B n a st))"
    and
    "\<forall>st a s. P st \<longrightarrow> R (currentState st) a = Inr s \<longrightarrow>
         P (st\<lparr>currentState := s, trace := trace st @ [Accepted a]\<rparr>) \<Longrightarrow>
     P st \<Longrightarrow> P (snd (forEach R B n k len st))"
    and
    "\<forall>st a s. P st \<longrightarrow> R (currentState st) a = Inr s \<longrightarrow>
         P (st\<lparr>currentState := s, trace := trace st @ [Accepted a]\<rparr>) \<Longrightarrow>
     P st \<Longrightarrow> P (snd (exec R B n cs st))"
proof (induction R B n a st and R B n k len st and R B n cs st rule: dispatch_forEach_exec.induct)
  case (1 R B action st)
  then show ?case by simp
next
  case (2 R B n action st)
  show ?case
  proof (cases "R (currentState st) action")
    case (Inl e)
    with "2.prems"(2) show ?thesis by simp
  next
    case (Inr s)
    from "2.prems" Inr have "P (st\<lparr>currentState := s, trace := trace st @ [Accepted action]\<rparr>)"
      by simp
    from "2.IH" [OF Inr "2.prems"(1) this] Inr show ?thesis by simp
  qed
next
  case (3 R B n k len st)
  show ?case
  proof (cases "k < len")
    case False
    with "3.prems"(2) show ?thesis by (simp add: forEach.simps [of R B n k len st])
  next
    case klen: True
    show ?thesis
    proof (cases "k < length (listeners st)")
      case False
      from "3.IH"(3) [OF klen False "3.prems"] klen False show ?thesis
        by (simp add: forEach.simps [of R B n k len st])
    next
      case inside: True
      let ?st = "st\<lparr>trace := trace st @ [Called n (listeners st ! k)]\<rparr>"
      obtain x y where xy: "exec R B n (B (listeners st ! k) ?st) ?st = (x, y)"
        by (cases "exec R B n (B (listeners st ! k) ?st) ?st") auto
      from "3.IH"(1) [OF klen inside "3.prems"(1) call [OF "3.prems"(2)]] xy have Py: "P y" by simp
      show ?thesis
      proof (cases x)
        case Normal
        from "3.IH"(2) [OF klen inside xy [symmetric] Normal "3.prems"(1) Py] klen inside xy Normal
        show ?thesis by (simp add: forEach.simps [of R B n k len st])
      next
        case (Throw e)
        with klen inside xy Py show ?thesis by (simp add: forEach.simps [of R B n k len st])
      qed
    qed
  qed
next
  case (4 R B n st)
  then show ?case by simp
next
  case (5 R B n f cs st)
  from "5.IH" [OF "5.prems"(1) sub [OF "5.prems"(2)]] show ?case by simp
next
  case (6 R B n h cs st)
  obtain x y where xy: "unsubscribe h st = (x, y)"
    by (cases "unsubscribe h st") auto
  from unsub [OF "6.prems"(2), of h] xy have Py: "P y" by simp
  show ?case
  proof (cases x)
    case Normal
    from "6.IH" [OF xy [symmetric] Normal "6.prems"(1) Py] xy Normal show ?thesis by simp
  next
    case (Throw e)
    with xy Py show ?thesis by simp
  qed
next
  case (7 R B n action cs st)
  obtain x y where xy: "dispatch R B n action st = (x, y)"
    by (cases "dispatch R B n action st") auto
  from "7.IH"(1) [OF "7.prems"] xy have Py: "P y" by simp
  show ?case
  proof (cases x)
    case Normal
    from "7.IH"(2) [OF xy [symmetric] Normal "7.prems"(1) Py] xy Normal show ?thesis by simp
  next
    case (Throw e)
    with xy Py show ?thesis by simp
  qed
next
  case (8 R B n m cs st)
  then show ?case by simp
next
  case (9 R B n cs st)
  then show ?case by simp
qed

subsection \<open>Dead handles stay dead\<close>

lemma unsubscribe_dead: "dead h st \<Longrightarrow> unsubscribe h st = (Normal, st)"
  by (simp add: unsubscribe_def dead_def)

lemma dead_after_unsubscribe:
  "h < length (subscriptions st) \<Longrightarrow> dead h (snd (unsubscribe h st))"
  by (simp add: unsubscribe_def Let_def dead_def)

lemma dead_subscribe: "dead h st \<Longrightarrow> dead h (snd (subscribe f st))"
  by (simp add: dead_def subscribe_def nth_append)

lemma dead_unsubscribe: "dead h st \<Longrightarrow> dead h (snd (unsubscribe h' st))"
  by (auto simp: dead_def unsubscribe_def Let_def nth_list_update)

lemma dead_exec: "dead h st \<Longrightarrow> dead h (snd (exec R B n cs st))"
  by (rule preserved(3) [where P = "dead h"])
     (simp_all add: dead_subscribe dead_unsubscribe, simp_all add: dead_def)

subsection \<open>The listener array and the live handles\<close>

lemma mset_filter_update:
  "h < length xs \<Longrightarrow> P (xs ! h) \<Longrightarrow> \<not> P y \<Longrightarrow>
     mset (map g (filter P (xs[h := y]))) = mset (map g (filter P xs)) - {#g (xs ! h)#}"
proof (induction xs arbitrary: h)
  case Nil
  then show ?case by simp
next
  case (Cons x xs)
  show ?case
  proof (cases h)
    case 0
    with Cons.prems show ?thesis by simp
  next
    case (Suc j)
    with Cons.prems have j: "j < length xs" "P (xs ! j)" by simp_all
    then have mem: "g (xs ! j) \<in># mset (map g (filter P xs))" by simp
    from Cons.IH [OF j Cons.prems(3)] Suc mem show ?thesis by simp
  qed
qed

lemma consistent_createStore: "consistent (createStore s0)"
  by (simp add: consistent_def createStore_def)

lemma consistent_subscribe: "consistent st \<Longrightarrow> consistent (snd (subscribe f st))"
  by (simp add: consistent_def subscribe_def)

lemma live_listener_mem:
  assumes "consistent st" "h < length (subscriptions st)" "isSubscribed (subscriptions st ! h)"
  shows "listener (subscriptions st ! h) \<in> set (listeners st)"
proof -
  from assms(2,3) have "subscriptions st ! h \<in> set (filter isSubscribed (subscriptions st))"
    by simp
  then have "listener (subscriptions st ! h)
      \<in># mset (map listener (filter isSubscribed (subscriptions st)))"
    by (metis image_eqI set_map set_mset_mset)
  with assms(1) show ?thesis
    by (metis consistent_def set_mset_mset)
qed

lemma unsubscribe_live:
  assumes "consistent st" "h < length (subscriptions st)" "isSubscribed (subscriptions st ! h)"
  shows "unsubscribe h st =
           (Normal,
            st\<lparr>subscriptions :=
                  (subscriptions st)[h := (subscriptions st ! h)\<lparr>isSubscribed := False\<rparr>],
               listeners := remove1 (listener (subscriptions st ! h)) (listeners st)\<rparr>)"
  using assms(2,3) live_listener_mem [OF assms]
  by (simp add: unsubscribe_def Let_def splice_indexOf_in)

lemma consistent_unsubscribe: "consistent st \<Longrightarrow> consistent (snd (unsubscribe h st))"
proof (cases "h < length (subscriptions st) \<and> isSubscribed (subscriptions st ! h)")
  case False
  assume "consistent st"
  with False show ?thesis by (auto simp: unsubscribe_def Let_def)
next
  case True
  assume c: "consistent st"
  from True have h: "h < length (subscriptions st)" and l: "isSubscribed (subscriptions st ! h)"
    by simp_all
  have "mset (map listener (filter isSubscribed
            ((subscriptions st)[h := (subscriptions st ! h)\<lparr>isSubscribed := False\<rparr>]))) =
        mset (map listener (filter isSubscribed (subscriptions st))) -
          {#listener (subscriptions st ! h)#}"
    by (rule mset_filter_update [where P = isSubscribed and g = listener, OF h l]) simp
  with c show ?thesis
    by (simp add: unsubscribe_live [OF c h l] consistent_def)
qed

lemma consistent_exec: "consistent st \<Longrightarrow> consistent (snd (exec R B n cs st))"
  by (rule preserved(3) [where P = consistent])
     (simp_all add: consistent_subscribe consistent_unsubscribe, simp_all add: consistent_def)

subsection \<open>Callbacks that leave the store alone, or only subscribe\<close>

lemma reads_idle: "reads c \<Longrightarrow> idle subs c"
  by (cases c) simp_all

lemma exec_idle:
  "\<forall>c\<in>set cs. idle (subscriptions st) c \<Longrightarrow> exec R B n cs st = (Normal, st)"
proof (induction cs)
  case Nil
  then show ?case by simp
next
  case (Cons c cs)
  then show ?case
    by (cases c) (simp_all add: unsubscribe_def)
qed

lemma subscribed_map_Subscribe: "subscribed (map Subscribe fs) = fs"
  by (induction fs) simp_all

lemma exec_grow:
  "\<forall>c\<in>set cs. reads_or_subscribes c \<Longrightarrow>
     exec R B n cs st = (Normal, grow (subscribed cs) st)"
proof (induction cs arbitrary: st)
  case Nil
  then show ?case by (simp add: grow_def)
next
  case (Cons c cs)
  then show ?case
    by (cases c) (simp_all add: grow_def subscribe_def)
qed

lemma exec_subscribes:
  "exec R B n (map Subscribe fs) st = (Normal, grow fs st)"
  by (rule exec_grow [where cs = "map Subscribe fs", simplified subscribed_map_Subscribe])
     simp

subsection \<open>The notification loop\<close>

lemma forEach_done: "len \<le> k \<Longrightarrow> forEach R B n k len st = (Normal, st)"
  by (simp add: forEach.simps [of R B n k len st])

lemma forEach_step:
  "k < len \<Longrightarrow> k < length (listeners st) \<Longrightarrow>
     forEach R B n k len st =
       (case exec R B n
               (B (listeners st ! k) (st\<lparr>trace := trace st @ [Called n (listeners st ! k)]\<rparr>))
               (st\<lparr>trace := trace st @ [Called n (listeners st ! k)]\<rparr>) of
          (Normal, st') \<Rightarrow> forEach R B n (Suc k) len st'
        | (Throw e, st') \<Rightarrow> (Throw e, st'))"
  by (simp add: forEach.simps [of R B n k len st])

lemma forEach_skip:
  "k < len \<Longrightarrow> length (listeners st) \<le> k \<Longrightarrow>
     forEach R B n k len st = forEach R B n (Suc k) len st"
  by (simp add: forEach.simps [of R B n k len st])

lemma forEach_past_end:
  "length (listeners st) \<le> k \<Longrightarrow> forEach R B n k len st = (Normal, st)"
proof (induction "len - k" arbitrary: k)
  case 0
  then show ?case by (simp add: forEach_done)
next
  case (Suc d)
  then have "k < len" by simp
  with Suc.prems have "forEach R B n k len st = forEach R B n (Suc k) len st"
    by (simp add: forEach_skip)
  also from Suc have "\<dots> = (Normal, st)" by simp
  finally show ?case .
qed

lemma forEach_split:
  "k \<le> i \<Longrightarrow> i \<le> len \<Longrightarrow>
     forEach R B n k len st =
       (case forEach R B n k i st of
          (Normal, st') \<Rightarrow> forEach R B n i len st'
        | (Throw e, st') \<Rightarrow> (Throw e, st'))"
proof (induction "i - k" arbitrary: k st)
  case 0
  then show ?case by (simp add: forEach_done)
next
  case (Suc d)
  then have ki: "k < i" and kl: "k < len" by simp_all
  from Suc have IH: "\<And>st'. forEach R B n (Suc k) len st' =
       (case forEach R B n (Suc k) i st' of
          (Normal, st'') \<Rightarrow> forEach R B n i len st''
        | (Throw e, st'') \<Rightarrow> (Throw e, st''))"
    by simp
  show ?case
  proof (cases "k < length (listeners st)")
    case False
    then have "length (listeners st) \<le> k" by simp
    with ki kl IH show ?thesis by (simp add: forEach_skip)
  next
    case True
    with ki kl IH show ?thesis
      by (simp add: forEach_step split: prod.splits completion.splits)
  qed
qed

lemma forEach_idle:
  "\<forall>j. k \<le> j \<and> j < len \<and> j < length (listeners st) \<longrightarrow>
       (\<forall>st'. \<forall>c\<in>set (B (listeners st ! j) st'). idle (subscriptions st) c) \<Longrightarrow>
     forEach R B n k len st =
       (Normal, st\<lparr>trace := trace st @ map (Called n) (drop k (take len (listeners st)))\<rparr>)"
proof (induction "len - k" arbitrary: k st)
  case 0
  then show ?case by (simp add: forEach_done)
next
  case (Suc d)
  then have kl: "k < len" by simp
  show ?case
  proof (cases "k < length (listeners st)")
    case False
    then have "length (listeners st) \<le> k" by simp
    then show ?thesis by (simp add: forEach_past_end)
  next
    case True
    let ?st = "st\<lparr>trace := trace st @ [Called n (listeners st ! k)]\<rparr>"
    from Suc.prems kl True
    have "\<forall>c\<in>set (B (listeners st ! k) ?st). idle (subscriptions ?st) c" by auto
    then have e: "exec R B n (B (listeners st ! k) ?st) ?st = (Normal, ?st)"
      by (rule exec_idle)
    from Suc.hyps(2) have d: "d = len - Suc k" by simp
    from Suc.prems have "\<forall>j. Suc k \<le> j \<and> j < len \<and> j < length (listeners ?st) \<longrightarrow>
       (\<forall>st'. \<forall>c\<in>set (B (listeners ?st ! j) st'). idle (subscriptions ?st) c)"
      by (auto dest: Suc_leD)
    from Suc.hyps(1) [OF d this]
    have r: "forEach R B n (Suc k) len ?st =
       (Normal, ?st\<lparr>trace := trace ?st @ map (Called n) (drop (Suc k) (take len (listeners ?st)))\<rparr>)" .
    from True kl have "drop k (take len (listeners st)) =
        listeners st ! k # drop (Suc k) (take len (listeners st))"
      by (simp add: Cons_nth_drop_Suc [symmetric])
    with kl True e r show ?thesis by (simp add: forEach_step)
  qed
qed

lemma forEach_grow:
  "len \<le> length (listeners st) \<Longrightarrow>
   \<forall>j. k \<le> j \<and> j < len \<longrightarrow>
       (\<forall>st'. \<forall>c\<in>set (B (listeners st ! j) st'). reads_or_subscribes c) \<Longrightarrow>
     \<exists>new.
       forEach R B n k len st =
         (Normal,
          grow new (st\<lparr>trace := trace st @ map (Called n) (drop k (take len (listeners st)))\<rparr>)) \<and>
       ((\<forall>j st'. k \<le> j \<and> j < len \<longrightarrow> subscribed (B (listeners st ! j) st') = S (listeners st ! j))
          \<longrightarrow> new = concat (map S (drop k (take len (listeners st)))))"
proof (induction "len - k" arbitrary: k st)
  case 0
  then show ?case
    by (intro exI [of _ "[]"]) (simp add: forEach_done grow_def)
next
  case (Suc d)
  then have kl: "k < len" by simp
  with Suc.prems have inside: "k < length (listeners st)" by simp
  let ?f = "listeners st ! k"
  let ?st = "st\<lparr>trace := trace st @ [Called n ?f]\<rparr>"
  let ?fs = "subscribed (B ?f ?st)"
  let ?st' = "grow ?fs ?st"
  from Suc.prems kl have "\<forall>c\<in>set (B ?f ?st). reads_or_subscribes c" by auto
  then have e: "exec R B n (B ?f ?st) ?st = (Normal, ?st')"
    by (rule exec_grow)
  from Suc.hyps(2) have d: "d = len - Suc k" by simp
  from Suc.prems have len': "len \<le> length (listeners ?st')" by (simp add: grow_def)
  from Suc.prems(1) have same: "\<And>j. j < len \<Longrightarrow> listeners ?st' ! j = listeners st ! j"
    by (simp add: grow_def nth_append)
  from Suc.prems(2) same have "\<forall>j. Suc k \<le> j \<and> j < len \<longrightarrow>
       (\<forall>st''. \<forall>c\<in>set (B (listeners ?st' ! j) st''). reads_or_subscribes c)"
    by (auto dest: Suc_leD)
  from Suc.hyps(1) [OF d len' this]
  obtain new where r: "forEach R B n (Suc k) len ?st' =
       (Normal,
        grow new (?st'\<lparr>trace := trace ?st' @
          map (Called n) (drop (Suc k) (take len (listeners ?st')))\<rparr>))"
    and n: "(\<forall>j st''. Suc k \<le> j \<and> j < len \<longrightarrow>
          subscribed (B (listeners ?st' ! j) st'') = S (listeners ?st' ! j)) \<longrightarrow>
       new = concat (map S (drop (Suc k) (take len (listeners ?st'))))"
    by blast
  from Suc.prems(1) have t: "take len (listeners ?st') = take len (listeners st)"
    by (simp add: grow_def)
  from inside kl have c: "drop k (take len (listeners st)) =
        ?f # drop (Suc k) (take len (listeners st))"
    by (simp add: Cons_nth_drop_Suc [symmetric])
  have "forEach R B n k len st =
      (Normal, grow (?fs @ new)
         (st\<lparr>trace := trace st @ map (Called n) (drop k (take len (listeners st)))\<rparr>))"
    using kl inside e r [unfolded t] c by (simp add: forEach_step grow_def)
  moreover have "?fs @ new = concat (map S (drop k (take len (listeners st))))"
    if all: "\<forall>j st'. k \<le> j \<and> j < len \<longrightarrow>
      subscribed (B (listeners st ! j) st') = S (listeners st ! j)"
  proof -
    from all kl have "?fs = S ?f" by simp
    moreover from all same have "\<forall>j st''. Suc k \<le> j \<and> j < len \<longrightarrow>
          subscribed (B (listeners ?st' ! j) st'') = S (listeners ?st' ! j)"
      by (auto dest: Suc_leD)
    with n have "new = concat (map S (drop (Suc k) (take len (listeners st))))"
      by (simp add: t)
    ultimately show ?thesis by (simp add: c)
  qed
  ultimately show ?case by blast
qed

subsection \<open>A callback that calls its own handle\<close>

lemma first_occurrence_remove1:
  "i < length xs \<Longrightarrow> xs ! i \<notin> set (take i xs) \<Longrightarrow>
     remove1 (xs ! i) xs = take i xs @ drop (Suc i) xs"
proof -
  assume i: "i < length xs" and first: "xs ! i \<notin> set (take i xs)"
  from i have "xs = take i xs @ xs ! i # drop (Suc i) xs"
    by (rule id_take_nth_drop)
  then have "remove1 (xs ! i) xs = remove1 (xs ! i) (take i xs @ xs ! i # drop (Suc i) xs)"
    by simp
  also from first have "\<dots> = take i xs @ drop (Suc i) xs"
    by (simp add: remove1_append)
  finally show ?thesis .
qed

lemma exec_self_unsubscribe:
  "h < length (subscriptions st) \<Longrightarrow> Unsubscribe h \<in> set cs \<Longrightarrow>
   \<forall>c\<in>set cs. c = Unsubscribe h \<or> reads c \<Longrightarrow>
     exec R B n cs st = (Normal, snd (unsubscribe h st))"
proof (induction cs)
  case Nil
  then show ?case by simp
next
  case (Cons c cs)
  show ?case
  proof (cases "c = Unsubscribe h")
    case True
    from Cons.prems(1) have n: "fst (unsubscribe h st) = Normal"
      by (simp add: unsubscribe_def Let_def)
    from Cons.prems(1) have "dead h (snd (unsubscribe h st))"
      by (rule dead_after_unsubscribe)
    with Cons.prems(3) have "\<forall>c\<in>set cs. idle (subscriptions (snd (unsubscribe h st))) c"
      by (auto simp: dead_def reads_idle)
    then have "exec R B n cs (snd (unsubscribe h st)) = (Normal, snd (unsubscribe h st))"
      by (rule exec_idle)
    with True n show ?thesis
      by (cases "unsubscribe h st") simp
  next
    case False
    with Cons.prems have "reads c" and "Unsubscribe h \<in> set cs" by auto
    with Cons show ?thesis by (cases c) simp_all
  qed
qed

subsection \<open>The state and the accepted actions\<close>



lemma exec_dispatches_no_listeners:
  "listeners st = [] \<Longrightarrow>
     exec (pure_reducer r) B (Suc n) (map Dispatch as) st =
       (Normal, st\<lparr>currentState := foldl r (currentState st) as,
                   trace := trace st @ map Accepted as\<rparr>)"
proof (induction as arbitrary: st)
  case Nil
  then show ?case by simp
next
  case (Cons a as)
  let ?st = "st\<lparr>currentState := r (currentState st) a, trace := trace st @ [Accepted a]\<rparr>"
  from Cons.prems have "dispatch (pure_reducer r) B (Suc n) a st = (Normal, ?st)"
    by (simp add: forEach_done pure_reducer_def)
  moreover from Cons.prems have "listeners ?st = []" by simp
  from Cons.IH [OF this] have "exec (pure_reducer r) B (Suc n) (map Dispatch as) ?st =
       (Normal, ?st\<lparr>currentState := foldl r (currentState ?st) as,
                   trace := trace ?st @ map Accepted as\<rparr>)" .
  ultimately show ?case by simp
qed

subsection \<open>The sample reducer and the state reference\<close>

lemma reducer_add:
  "ref s = Some r \<Longrightarrow> r < length (heap s) \<Longrightarrow> type action = ADD_TODO \<Longrightarrow>
     reducer s action =
       Inr \<lparr>heap = heap s @ [heap s ! r @ [payload action]], ref = Some (length (heap s))\<rparr>"
  by (simp add: reducer_def alloc_def)

lemma reducer_other:
  "ref s = Some r \<Longrightarrow> type action \<noteq> ADD_TODO \<Longrightarrow> reducer s action = Inr s"
  by (simp add: reducer_def)

lemma beyond_forEach:
  "beyond r st \<Longrightarrow> beyond r (snd (forEach reducer B n k len st))"
proof (rule preserved(2) [where P = "beyond r"])
  show "\<forall>st a s. beyond r st \<longrightarrow> reducer (currentState st) a = Inr s \<longrightarrow>
      beyond r (st\<lparr>currentState := s, trace := trace st @ [Accepted a]\<rparr>)"
    by (auto simp: beyond_def reducer_def alloc_def split: option.splits if_splits)
qed (auto simp: beyond_def subscribe_def unsubscribe_def Let_def split: option.splits)

lemma defined_forEach:
  "ref (currentState st) \<noteq> None \<Longrightarrow>
     ref (currentState (snd (forEach reducer B n k len st))) \<noteq> None"
proof (rule preserved(2) [where P = "\<lambda>st. ref (currentState st) \<noteq> None"])
  show "\<forall>st a s. ref (currentState st) \<noteq> None \<longrightarrow> reducer (currentState st) a = Inr s \<longrightarrow>
      ref (currentState (st\<lparr>currentState := s, trace := trace st @ [Accepted a]\<rparr>)) \<noteq> None"
    by (auto simp: reducer_def alloc_def split: option.splits if_splits)
qed (auto simp: subscribe_def unsubscribe_def Let_def)

lemma exec_keeps_state:
  "\<forall>c\<in>set cs. \<not> dispatches c \<Longrightarrow> currentState (snd (exec R B n cs st)) = currentState st"
proof (induction cs arbitrary: st)
  case Nil
  then show ?case by simp
next
  case (Cons c cs)
  then show ?case
    by (cases c) (auto simp: subscribe_def unsubscribe_def Let_def)
qed

lemma forEach_keeps_state:
  "\<forall>f st'. \<forall>c\<in>set (B f st'). \<not> dispatches c \<Longrightarrow>
     currentState (snd (forEach R B n k len st)) = currentState st"
proof (induction "len - k" arbitrary: k st)
  case 0
  then show ?case by (simp add: forEach_done)
next
  case (Suc d)
  then have kl: "k < len" and d: "d = len - Suc k" by simp_all
  show ?case
  proof (cases "k < length (listeners st)")
    case False
    then show ?thesis by (simp add: forEach_past_end)
  next
    case True
    let ?st = "st\<lparr>trace := trace st @ [Called n (listeners st ! k)]\<rparr>"
    obtain x y where xy: "exec R B n (B (listeners st ! k) ?st) ?st = (x, y)"
      by (cases "exec R B n (B (listeners st ! k) ?st) ?st") auto
    from Suc.prems have "currentState (snd (exec R B n (B (listeners st ! k) ?st) ?st)) =
        currentState ?st"
      by (intro exec_keeps_state) simp
    with xy have y: "currentState y = currentState st" by simp
    from Suc.hyps(1) [OF d Suc.prems, of y] y
    have "currentState (snd (forEach R B n (Suc k) len y)) = currentState st" by simp
    with kl True xy y show ?thesis
      by (cases x) (simp_all add: forEach_step)
  qed
qed

subsection \<open>The state after dispatches\<close>


lemma dispatch_result_state:
  assumes "\<forall>f st'. \<forall>c\<in>set (B f st'). \<not> dispatches c"
    and "R (currentState st) action = Inr s"
  shows "currentState (snd (dispatch R B (Suc n) action st)) = s"
proof -
  let ?st = "st\<lparr>currentState := s, trace := trace st @ [Accepted action]\<rparr>"
  from assms(1)
  have "currentState (snd (forEach R B n 0 (length (listeners st)) ?st)) = currentState ?st"
    by (rule forEach_keeps_state)
  with assms(2) show ?thesis by simp
qed




subsection \<open>The order of the listener collection\<close>

lemma map_filter_update_remove1:
  "distinct (map g xs) \<Longrightarrow> h < length xs \<Longrightarrow> P (xs ! h) \<Longrightarrow> \<not> P y \<Longrightarrow>
     map g (filter P (xs[h := y])) = remove1 (g (xs ! h)) (map g (filter P xs))"
proof (induction xs arbitrary: h)
  case Nil
  then show ?case by simp
next
  case (Cons x xs)
  show ?case
  proof (cases h)
    case 0
    with Cons.prems show ?thesis by simp
  next
    case (Suc j)
    with Cons.prems have j: "j < length xs" "P (xs ! j)" and d: "distinct (map g xs)"
      and ne: "g x \<noteq> g (xs ! j)"
      by auto
    from Cons.IH [OF d j Cons.prems(4)] Suc ne show ?thesis by simp
  qed
qed

lemma map_listener_update:
  "h < length xs \<Longrightarrow>
     map listener (xs[h := (xs ! h)\<lparr>isSubscribed := False\<rparr>]) = map listener xs"
  by (simp add: map_update list_update_same_conv)

lemma unique_in_order:
  assumes "st = run_events R B n cs (createStore s0)"
  shows "distinct (map listener (subscriptions st)) \<longrightarrow>
           listeners st = map listener (filter isSubscribed (subscriptions st))"
proof -
  let ?P = "\<lambda>st :: ('a, 'b) store. distinct (map listener (subscriptions st)) \<longrightarrow>
           listeners st = map listener (filter isSubscribed (subscriptions st))"
  have unsub: "?P (snd (unsubscribe h st))" if p: "?P st" for h and st :: "('a, 'b) store"
  proof (cases "h < length (subscriptions st) \<and> isSubscribed (subscriptions st ! h)")
    case False
    with p show ?thesis by (auto simp: unsubscribe_def Let_def)
  next
    case True
    then have h: "h < length (subscriptions st)" and l: "isSubscribed (subscriptions st ! h)"
      by simp_all
    show ?thesis
    proof
      assume "distinct (map listener (subscriptions (snd (unsubscribe h st))))"
      with h l have d: "distinct (map listener (subscriptions st))"
        by (simp add: unsubscribe_def Let_def map_listener_update)
      with p have o: "listeners st = map listener (filter isSubscribed (subscriptions st))"
        by simp
      from h l have "subscriptions st ! h \<in> set (filter isSubscribed (subscriptions st))"
        by simp
      with o have mem: "listener (subscriptions st ! h) \<in> set (listeners st)"
        by (metis image_eqI set_map)
      have "map listener (filter isSubscribed
            ((subscriptions st)[h := (subscriptions st ! h)\<lparr>isSubscribed := False\<rparr>])) =
          remove1 (listener (subscriptions st ! h))
            (map listener (filter isSubscribed (subscriptions st)))"
        by (rule map_filter_update_remove1 [where g = listener and P = isSubscribed, OF d h l])
           simp
      with h l mem o
      show "listeners (snd (unsubscribe h st)) =
          map listener (filter isSubscribed (subscriptions (snd (unsubscribe h st))))"
        by (simp add: unsubscribe_def Let_def splice_indexOf_in)
    qed
  qed
  have base: "?P (createStore s0)" by (simp add: createStore_def)
  have sub: "\<And>f st. ?P st \<Longrightarrow> ?P (snd (subscribe f st))"
    by (auto simp: subscribe_def)
  have call: "\<And>st n f. ?P st \<Longrightarrow> ?P (st\<lparr>trace := trace st @ [Called n f]\<rparr>)"
    by simp
  have acc: "\<forall>st a s. ?P st \<longrightarrow> R (currentState st) a = Inr s \<longrightarrow>
      ?P (st\<lparr>currentState := s, trace := trace st @ [Accepted a]\<rparr>)"
    by simp
  have step: "?P (snd (exec R B n cs' st'))" if p: "?P st'" for cs' st'
    using preserved(3) [where P = ?P, OF sub unsub call acc p] .
  have "?P (foldl (\<lambda>st' c. snd (exec R B n [c] st')) st0 cs)" if "?P st0" for st0
    using that
  proof (induction cs arbitrary: st0)
    case Nil
    then show ?case by simp
  next
    case (Cons c cs)
    from step [OF Cons.prems] have "?P (snd (exec R B n [c] st0))" .
    from Cons.IH [OF this] show ?case by simp
  qed
  from this [OF base] assms show ?thesis by (simp add: run_events_def)
qed

lemma live_in_order:
  assumes "st = run_events R B n cs (createStore s0)"
  shows "list_all isSubscribed (subscriptions st) \<longrightarrow>
           listeners st = map listener (filter isSubscribed (subscriptions st))"
proof -
  let ?P = "\<lambda>st :: ('a, 'b) store. list_all isSubscribed (subscriptions st) \<longrightarrow>
           listeners st = map listener (filter isSubscribed (subscriptions st))"
  have unsub: "?P (snd (unsubscribe h st))" if p: "?P st" for h and st :: "('a, 'b) store"
  proof (cases "h < length (subscriptions st) \<and> isSubscribed (subscriptions st ! h)")
    case False
    with p show ?thesis by (auto simp: unsubscribe_def Let_def)
  next
    case True
    then have "\<not> list_all isSubscribed (subscriptions (snd (unsubscribe h st)))"
      by (auto simp: unsubscribe_def Let_def list_all_length
          intro!: exI [of _ h])
    then show ?thesis by simp
  qed
  have base: "?P (createStore s0)" by (simp add: createStore_def)
  have sub: "\<And>f st. ?P st \<Longrightarrow> ?P (snd (subscribe f st))"
    by (auto simp: subscribe_def)
  have call: "\<And>st n f. ?P st \<Longrightarrow> ?P (st\<lparr>trace := trace st @ [Called n f]\<rparr>)"
    by simp
  have acc: "\<forall>st a s. ?P st \<longrightarrow> R (currentState st) a = Inr s \<longrightarrow>
      ?P (st\<lparr>currentState := s, trace := trace st @ [Accepted a]\<rparr>)"
    by simp
  have step: "?P (snd (exec R B n cs' st'))" if p: "?P st'" for cs' st'
    using preserved(3) [where P = ?P, OF sub unsub call acc p] .
  have "?P (foldl (\<lambda>st' c. snd (exec R B n [c] st')) st0 cs)" if "?P st0" for st0
    using that
  proof (induction cs arbitrary: st0)
    case Nil
    then show ?case by simp
  next
    case (Cons c cs)
    from step [OF Cons.prems] have "?P (snd (exec R B n [c] st0))" .
    from Cons.IH [OF this] show ?case by simp
  qed
  from this [OF base] assms show ?thesis by (simp add: run_events_def)
qed

subsection \<open>The calls of one pass\<close>

text \<open>
  When the callbacks call only handles that are dead already, nothing is removed: the
  listener collection only grows, a pass calls the listeners of the slots that were
  present when it began, in order (all of them when it returns normally), and every
  other call recorded during the pass belongs to the pass of a nested dispatch.
\<close>

lemma calls_of_append: "calls_of n (xs @ ys) = calls_of n xs @ calls_of n ys"
  by (induction xs rule: calls_of.induct) simp_all

lemma quiet_from_append: "quiet_from lvl (xs @ ys) \<longleftrightarrow> quiet_from lvl xs \<and> quiet_from lvl ys"
  by (induction xs rule: quiet_from.induct) simp_all

lemma quiet_from_mono: "quiet_from lvl es \<Longrightarrow> lvl \<le> lvl' \<Longrightarrow> quiet_from lvl' es"
  by (induction es rule: quiet_from.induct) simp_all

lemma quiet_from_calls: "quiet_from lvl es \<Longrightarrow> lvl \<le> m \<Longrightarrow> calls_of m es = []"
  by (induction es rule: quiet_from.induct) simp_all

lemma dead_all_preserved:
  "\<forall>h\<in>D. dead h st \<Longrightarrow> \<forall>h\<in>D. dead h (snd (dispatch R B n a st))"
  "\<forall>h\<in>D. dead h st \<Longrightarrow> \<forall>h\<in>D. dead h (snd (forEach R B n k len st))"
  "\<forall>h\<in>D. dead h st \<Longrightarrow> \<forall>h\<in>D. dead h (snd (exec R B n cs st))"
proof -
  let ?P = "\<lambda>st :: ('a, 'b) store. \<forall>h\<in>D. dead h st"
  have sub: "\<And>f st. ?P st \<Longrightarrow> ?P (snd (subscribe f st))"
    by (simp add: dead_subscribe)
  have unsub: "\<And>h st. ?P st \<Longrightarrow> ?P (snd (unsubscribe h st))"
    by (simp add: dead_unsubscribe)
  have call: "\<And>st n f. ?P st \<Longrightarrow> ?P (st\<lparr>trace := trace st @ [Called n f]\<rparr>)"
    by (simp add: dead_def)
  have acc: "\<forall>st a s. ?P st \<longrightarrow> R (currentState st) a = Inr s \<longrightarrow>
      ?P (st\<lparr>currentState := s, trace := trace st @ [Accepted a]\<rparr>)"
    by (simp add: dead_def)
  show "\<forall>h\<in>D. dead h st \<Longrightarrow> \<forall>h\<in>D. dead h (snd (dispatch R B n a st))"
    by (rule preserved(1) [where P = ?P, OF sub unsub call acc])
  show "\<forall>h\<in>D. dead h st \<Longrightarrow> \<forall>h\<in>D. dead h (snd (forEach R B n k len st))"
    by (rule preserved(2) [where P = ?P, OF sub unsub call acc])
  show "\<forall>h\<in>D. dead h st \<Longrightarrow> \<forall>h\<in>D. dead h (snd (exec R B n cs st))"
    by (rule preserved(3) [where P = ?P, OF sub unsub call acc])
qed

lemma pass_structure:
  fixes R :: "'s \<Rightarrow> 'a \<Rightarrow> error + 's"
  shows
    "\<forall>f st' h. Unsubscribe h \<in> set (B f st') \<longrightarrow> h \<in> D \<Longrightarrow> \<forall>h\<in>D. dead h st \<Longrightarrow>
     \<exists>rest. trace (snd (dispatch R B n a st)) = trace st @ rest \<and> quiet_from n rest \<and>
        prefix (listeners st) (listeners (snd (dispatch R B n a st)))"
    and
    "\<forall>f st' h. Unsubscribe h \<in> set (B f st') \<longrightarrow> h \<in> D \<Longrightarrow> \<forall>h\<in>D. dead h st \<Longrightarrow>
     len \<le> length (listeners st) \<Longrightarrow>
     \<exists>rest. trace (snd (forEach R B n k len st)) = trace st @ rest \<and>
        quiet_from (Suc n) rest \<and>
        prefix (calls_of n rest) (drop k (take len (listeners st))) \<and>
        (fst (forEach R B n k len st) = Normal \<longrightarrow>
           calls_of n rest = drop k (take len (listeners st))) \<and>
        prefix (listeners st) (listeners (snd (forEach R B n k len st)))"
    and
    "\<forall>f st' h. Unsubscribe h \<in> set (B f st') \<longrightarrow> h \<in> D \<Longrightarrow> \<forall>h\<in>D. dead h st \<Longrightarrow>
     \<forall>h. Unsubscribe h \<in> set cs \<longrightarrow> h \<in> D \<Longrightarrow>
     \<exists>rest. trace (snd (exec R B n cs st)) = trace st @ rest \<and> quiet_from n rest \<and>
        prefix (listeners st) (listeners (snd (exec R B n cs st)))"
proof (induction R B n a st and R B n k len st and R B n cs st rule: dispatch_forEach_exec.induct)
  case (1 R B action st)
  then show ?case by simp
next
  case (2 R B n action st)
  show ?case
  proof (cases "R (currentState st) action")
    case (Inl e)
    then show ?thesis by simp
  next
    case (Inr s)
    let ?st = "st\<lparr>currentState := s, trace := trace st @ [Accepted action]\<rparr>"
    from "2.prems"(2) have d: "\<forall>h\<in>D. dead h ?st" by (simp add: dead_def)
    have l: "length (listeners st) \<le> length (listeners ?st)" by simp
    from "2.IH" [OF Inr "2.prems"(1) d l]
    obtain rest where r: "trace (snd (forEach R B n 0 (length (listeners st)) ?st)) =
          trace ?st @ rest"
      and q: "quiet_from (Suc n) rest"
      and p: "prefix (listeners ?st) (listeners (snd (forEach R B n 0 (length (listeners st)) ?st)))"
      by blast
    from Inr r q p show ?thesis
      by (intro exI [of _ "Accepted action # rest"]) simp
  qed
next
  case (3 R B n k len st)
  let ?ls = "listeners st"
  show ?case
  proof (cases "k < len")
    case False
    then show ?thesis by (intro exI [of _ "[]"]) (simp add: forEach_done)
  next
    case kl: True
    with "3.prems"(3) have inside: "k < length ?ls" by simp
    let ?f = "?ls ! k"
    let ?st = "st\<lparr>trace := trace st @ [Called n ?f]\<rparr>"
    obtain x y where xy: "exec R B n (B ?f ?st) ?st = (x, y)"
      by (cases "exec R B n (B ?f ?st) ?st") auto
    from "3.prems"(2) have d: "\<forall>h\<in>D. dead h ?st" by (simp add: dead_def)
    from "3.prems"(1) have body: "\<forall>h. Unsubscribe h \<in> set (B ?f ?st) \<longrightarrow> h \<in> D" by blast
    from "3.IH"(1) [OF kl inside "3.prems"(1) d body] xy
    obtain rest1 where r1: "trace y = trace ?st @ rest1" and q1: "quiet_from n rest1"
      and p1: "prefix ?ls (listeners y)"
      by auto
    from q1 have c1: "calls_of n rest1 = []" by (rule quiet_from_calls) simp
    from q1 have q1': "quiet_from (Suc n) rest1" by (rule quiet_from_mono) simp
    from kl inside have dr: "drop k (take len ?ls) = ?f # drop (Suc k) (take len ?ls)"
      by (simp add: Cons_nth_drop_Suc [symmetric])
    have step: "forEach R B n k len st =
        (case x of Normal \<Rightarrow> forEach R B n (Suc k) len y | Throw e \<Rightarrow> (Throw e, y))"
      using kl inside xy by (simp add: forEach_step)
    show ?thesis
    proof (cases x)
      case (Throw e)
      with step have "forEach R B n k len st = (Throw e, y)" by simp
      with r1 q1' c1 p1 dr show ?thesis
        by (intro exI [of _ "Called n ?f # rest1"]) simp
    next
      case Normal
      from d dead_all_preserved(3) [of D ?st R B n "B ?f ?st"] xy
      have dy: "\<forall>h\<in>D. dead h y" by simp
      from p1 "3.prems"(3) have ly: "len \<le> length (listeners y)"
        by (auto simp: prefix_def)
      from "3.IH"(2) [OF kl inside xy [symmetric] Normal "3.prems"(1) dy ly]
      obtain rest2 where r2: "trace (snd (forEach R B n (Suc k) len y)) = trace y @ rest2"
        and q2: "quiet_from (Suc n) rest2"
        and c2: "prefix (calls_of n rest2) (drop (Suc k) (take len (listeners y)))"
        and c2': "fst (forEach R B n (Suc k) len y) = Normal \<longrightarrow>
           calls_of n rest2 = drop (Suc k) (take len (listeners y))"
        and p2: "prefix (listeners y) (listeners (snd (forEach R B n (Suc k) len y)))"
        by blast
      from p1 "3.prems"(3) have t: "take len (listeners y) = take len ?ls"
        by (auto simp: prefix_def)
      from p1 p2 have p: "prefix ?ls (listeners (snd (forEach R B n (Suc k) len y)))"
        by (rule prefix_order.trans)
      from Normal step have "forEach R B n k len st = forEach R B n (Suc k) len y" by simp
      with r1 r2 q1' q2 c1 c2 c2' p dr t show ?thesis
        by (intro exI [of _ "Called n ?f # rest1 @ rest2"])
           (simp add: calls_of_append quiet_from_append)
    qed
  qed
next
  case (4 R B n st)
  then show ?case by simp
next
  case (5 R B n f cs st)
  let ?st = "snd (subscribe f st)"
  from "5.prems"(2) have d: "\<forall>h\<in>D. dead h ?st" by (simp add: dead_subscribe)
  from "5.prems"(3) have b: "\<forall>h. Unsubscribe h \<in> set cs \<longrightarrow> h \<in> D" by simp
  from "5.IH" [OF "5.prems"(1) d b]
  obtain rest where r: "trace (snd (exec R B n cs ?st)) = trace ?st @ rest"
    and q: "quiet_from n rest"
    and p: "prefix (listeners ?st) (listeners (snd (exec R B n cs ?st)))"
    by blast
  have "prefix (listeners st) (listeners ?st)" by (simp add: subscribe_def)
  from this p have "prefix (listeners st) (listeners (snd (exec R B n cs ?st)))"
    by (rule prefix_order.trans)
  with r q show ?case
    by (intro exI [of _ rest]) (simp add: subscribe_def)
next
  case (6 R B n h cs st)
  from "6.prems"(3) have "h \<in> D" by simp
  with "6.prems"(2) have "dead h st" by simp
  then have u: "unsubscribe h st = (Normal, st)" by (rule unsubscribe_dead)
  from "6.prems"(3) have b: "\<forall>h. Unsubscribe h \<in> set cs \<longrightarrow> h \<in> D" by simp
  from "6.IH" [OF u [symmetric] refl "6.prems"(1,2) b] u show ?case by simp
next
  case (7 R B n action cs st)
  obtain x y where xy: "dispatch R B n action st = (x, y)"
    by (cases "dispatch R B n action st") auto
  from "7.IH"(1) [OF "7.prems"(1,2)] xy
  obtain rest1 where r1: "trace y = trace st @ rest1" and q1: "quiet_from n rest1"
    and p1: "prefix (listeners st) (listeners y)"
    by auto
  show ?case
  proof (cases x)
    case (Throw e)
    with xy r1 q1 p1 show ?thesis by (intro exI [of _ rest1]) simp
  next
    case Normal
    from "7.prems"(2) dead_all_preserved(1) [of D st R B n action] xy
    have dy: "\<forall>h\<in>D. dead h y" by simp
    from "7.prems"(3) have b: "\<forall>h. Unsubscribe h \<in> set cs \<longrightarrow> h \<in> D" by simp
    from "7.IH"(2) [OF xy [symmetric] Normal "7.prems"(1) dy b]
    obtain rest2 where r2: "trace (snd (exec R B n cs y)) = trace y @ rest2"
      and q2: "quiet_from n rest2"
      and p2: "prefix (listeners y) (listeners (snd (exec R B n cs y)))"
      by blast
    from p1 p2 have "prefix (listeners st) (listeners (snd (exec R B n cs y)))"
      by (rule prefix_order.trans)
    with xy Normal r1 r2 q1 q2 show ?thesis
      by (intro exI [of _ "rest1 @ rest2"]) (simp add: quiet_from_append)
  qed
next
  case (8 R B n m cs st)
  then show ?case by simp
next
  case (9 R B n cs st)
  from "9.prems"(3) have b: "\<forall>h. Unsubscribe h \<in> set cs \<longrightarrow> h \<in> D" by simp
  from "9.IH" [OF "9.prems"(1,2) b] show ?case by simp
qed

section \<open>The claims\<close>

text \<open>
  C7. If the transition function throws during \<^verbatim>\<open>dispatch\<close>, the error reaches the
  caller of \<^verbatim>\<open>dispatch\<close> as it was thrown, and the store is exactly what it was before
  the call: the state is not replaced, the listener collection is untouched, and the trace
  gains no entry, so no listener was called.
\<close>

theorem dispatch_reducer_throws:
  "R (currentState st) action = Inl e \<Longrightarrow> dispatch R B (Suc n) action st = (Throw e, st)"
  by simp

theorem dispatch_reducer_throws_witness:
  "failing_reducer (currentState three_listeners) () = Inl (Thrown ''boom'') \<and>
   dispatch failing_reducer readers (Suc 0) () three_listeners =
     (Throw (Thrown ''boom''), three_listeners)"
proof -
  have h: "failing_reducer (currentState three_listeners) () = Inl (Thrown ''boom'')"
    by (simp add: failing_reducer_def)
  show ?thesis
    using h dispatch_reducer_throws
      [where R = failing_reducer and st = three_listeners and B = readers and n = 0, OF h]
    by simp
qed

text \<open>
  C9. Calling an unsubscribe handle again has no effect and raises nothing: the first call
  of an existing handle returns normally, a second call right after it returns normally
  and leaves the store as the first call left it, and so does a later call after any
  further calls of the store's interface (which may themselves call the handle).
\<close>

theorem unsubscribe_twice:
  assumes "h < length (subscriptions st)"
  shows "fst (unsubscribe h st) = Normal \<and>
     unsubscribe h (snd (unsubscribe h st)) = (Normal, snd (unsubscribe h st)) \<and>
     unsubscribe h (snd (exec R B n cs (snd (unsubscribe h st)))) =
       (Normal, snd (exec R B n cs (snd (unsubscribe h st))))"
proof -
  from assms have "fst (unsubscribe h st) = Normal"
    by (simp add: unsubscribe_def Let_def)
  moreover have d: "dead h (snd (unsubscribe h st))"
    by (rule dead_after_unsubscribe [OF assms])
  moreover from d have "dead h (snd (exec R B n cs (snd (unsubscribe h st))))"
    by (rule dead_exec)
  ultimately show ?thesis by (simp add: unsubscribe_dead)
qed

theorem unsubscribe_twice_witness:
  "(1::nat) < length (subscriptions three_listeners) \<and>
   listeners (snd (unsubscribe 1 three_listeners)) = [0, 2] \<and>
   unsubscribe 1 (snd (unsubscribe 1 three_listeners)) =
     (Normal, snd (unsubscribe 1 three_listeners)) \<and>
   unsubscribe 1 (snd (exec count_actions readers 1 [Dispatch (), Unsubscribe 1]
       (snd (unsubscribe 1 three_listeners)))) =
     (Normal, snd (exec count_actions readers 1 [Dispatch (), Unsubscribe 1]
       (snd (unsubscribe 1 three_listeners))))"
proof -
  have h: "(1::nat) < length (subscriptions three_listeners)"
    by (simp add: three_listeners_def two_listeners_def subscribe_def createStore_def)
  have l: "listeners (snd (unsubscribe 1 three_listeners)) = [0, 2]"
    by (simp add: three_listeners_def two_listeners_def subscribe_def createStore_def
        unsubscribe_def splice_array_def)
  show ?thesis
    using h l unsubscribe_twice [OF h, of count_actions readers 1 "[Dispatch (), Unsubscribe 1]"]
    by simp
qed

text \<open>
  C2, as stated, fails. With the callbacks \<open>0\<close> and \<open>1\<close> registered, registering
  \<open>0\<close> once more and calling the handle just returned removes the first slot that holds
  \<open>0\<close>, not the new one: the collection goes from \<open>[0, 1]\<close> to \<open>[1, 0]\<close>.
\<close>

theorem resubscribe_unsubscribe_reorders:
  "listeners two_listeners = [0, 1] \<and>
   fst (subscribe 0 two_listeners) = 2 \<and>
   listeners (snd (subscribe 0 two_listeners)) = [0, 1, 0] \<and>
   listeners (snd (unsubscribe 2 (snd (subscribe 0 two_listeners)))) = [1, 0]"
  by (simp add: two_listeners_def subscribe_def createStore_def unsubscribe_def
      splice_array_def)

text \<open>
  C2, amended. In every store reached from \<^verbatim>\<open>createStore\<close> by calls of the interface,
  calling a handle that is still subscribed removes one slot, the first one that holds the
  handle's callback (removal by value), and the collection gets shorter by one. Subscribing
  a callback and calling the returned handle at once removes the first slot holding that
  callback from the extended collection: the count is what it was before, and the
  collection is what it was before when the callback was not registered already.
\<close>

theorem unsubscribe_removes_first_slot:
  assumes "st = snd (exec R B n cs (createStore s0))"
  shows "(h < length (subscriptions st) \<and> isSubscribed (subscriptions st ! h) \<longrightarrow>
            listeners (snd (unsubscribe h st)) =
              remove1 (listener (subscriptions st ! h)) (listeners st) \<and>
            length (listeners (snd (unsubscribe h st))) + 1 = length (listeners st)) \<and>
         listeners (snd (unsubscribe (fst (subscribe f st)) (snd (subscribe f st)))) =
           remove1 f (listeners st @ [f]) \<and>
         length (listeners (snd (unsubscribe (fst (subscribe f st)) (snd (subscribe f st))))) =
           length (listeners st) \<and>
         (f \<notin> set (listeners st) \<longrightarrow>
            listeners (snd (unsubscribe (fst (subscribe f st)) (snd (subscribe f st)))) =
              listeners st)"
proof -
  have c: "consistent st"
    unfolding assms by (rule consistent_exec [OF consistent_createStore])
  have a: "listeners (snd (unsubscribe h st)) =
              remove1 (listener (subscriptions st ! h)) (listeners st) \<and>
            length (listeners (snd (unsubscribe h st))) + 1 = length (listeners st)"
    if h: "h < length (subscriptions st)" and l: "isSubscribed (subscriptions st ! h)"
    using live_listener_mem [OF c h l]
    by (simp add: unsubscribe_live [OF c h l] length_remove1)
       (metis Suc_pred length_pos_if_in_set)
  have c': "consistent (snd (subscribe f st))"
    by (rule consistent_subscribe [OF c])
  have b: "listeners (snd (unsubscribe (fst (subscribe f st)) (snd (subscribe f st)))) =
           remove1 f (listeners st @ [f])"
    using unsubscribe_live [OF c', of "fst (subscribe f st)"]
    by (simp add: subscribe_def)
  from a b length_pos_if_in_set [of f "listeners st"] show ?thesis
    by (auto simp: remove1_append length_remove1)
qed

theorem unsubscribe_removes_first_slot_witness:
  "two_listeners = snd (exec count_actions readers 0 [Subscribe 0, Subscribe 1] (createStore 0)) \<and>
   (0::nat) < length (subscriptions two_listeners) \<and>
   isSubscribed (subscriptions two_listeners ! 0) \<and>
   5 \<notin> set (listeners two_listeners) \<and>
   listeners (snd (unsubscribe 0 two_listeners)) = [1] \<and>
   listeners (snd (unsubscribe (fst (subscribe 5 two_listeners)) (snd (subscribe 5 two_listeners)))) =
     listeners two_listeners"
proof -
  have e: "two_listeners =
      snd (exec count_actions readers 0 [Subscribe 0, Subscribe 1] (createStore 0))"
    by (simp add: two_listeners_def)
  have l: "listeners two_listeners = [0, 1]"
    and s: "subscriptions two_listeners =
      [\<lparr>listener = 0, isSubscribed = True\<rparr>, \<lparr>listener = 1, isSubscribed = True\<rparr>]"
    by (simp_all add: two_listeners_def subscribe_def createStore_def)
  show ?thesis
    using e unsubscribe_removes_first_slot [OF e, of 0 5] by (simp add: l s)
qed

text \<open>
  C8, as stated, fails, in two ways. A listener that throws neither changes the listener
  collection nor dispatches, and \<^verbatim>\<open>dispatch\<close> has no \<^verbatim>\<open>try\<close>: with the callbacks
  \<open>0\<close>, \<open>1\<close>, \<open>2\<close> registered and \<open>1\<close> throwing, the pass calls \<open>0\<close> and \<open>1\<close>,
  the error reaches the caller, and \<open>2\<close> is never called. And the order of the
  collection need not be the order of subscription: after \<open>0\<close>, \<open>1\<close> and \<open>0\<close> again
  were subscribed and the handle of the third subscription was called, the handles still
  subscribed are those of \<open>0\<close> and of \<open>1\<close>, in that order, but the collection is
  \<open>[1, 0]\<close> and a pass calls \<open>1\<close> before \<open>0\<close>.
\<close>

theorem throwing_listener_aborts_pass:
  "listeners three_listeners = [0, 1, 2] \<and>
   throwing 1 three_listeners = [Raise ''boom''] \<and>
   \<not> mutates (Raise ''boom'' :: unit cmd) \<and>
   dispatch count_actions throwing 1 () three_listeners =
     (Throw (Thrown ''boom''),
      three_listeners\<lparr>currentState := 1, trace := [Accepted (), Called 0 0, Called 0 1]\<rparr>) \<and>
   subscriptions dup_store =
     [\<lparr>listener = 0, isSubscribed = True\<rparr>, \<lparr>listener = 1, isSubscribed = True\<rparr>,
      \<lparr>listener = 0, isSubscribed = False\<rparr>] \<and>
   listeners dup_store = [1, 0] \<and>
   dispatch count_actions readers 1 () dup_store =
     (Normal, dup_store\<lparr>currentState := 1, trace := [Accepted (), Called 0 1, Called 0 0]\<rparr>)"
  by (simp add: three_listeners_def two_listeners_def dup_store_def run_events_def
      subscribe_def createStore_def unsubscribe_def splice_array_def throwing_def readers_def
      count_actions_def pure_reducer_def forEach.simps)

text \<open>
  C8, amended. When the callbacks registered in the store do nothing but read the state
  and call handles that are already dead (none subscribes, calls a live handle, dispatches
  or throws), one \<^verbatim>\<open>dispatch\<close> with a reducer that returns stores the new state and
  then calls the listener of each slot of the collection exactly once, in the order of the
  collection, and returns normally; nothing else in the store changes. A listener is
  called with no argument: \<^verbatim>\<open>listener => listener()\<close> passes none, and a callback of
  the model has no parameter. In every store that calls of the interface reach from
  \<^verbatim>\<open>createStore\<close> (the calls of a client one after the other, whatever their
  completions, and the calls that the callbacks make), the order of the collection is the
  order in which the handles still subscribed were issued, provided that no callback was
  subscribed more than once or that no handle has been called yet.
\<close>

theorem dispatch_notifies_each_once:
  assumes "R (currentState st) action = Inr s"
    and "\<forall>f\<in>set (listeners st). \<forall>st'. \<forall>c\<in>set (B f st'). idle (subscriptions st) c"
  shows "dispatch R B (Suc n) action st =
           (Normal, st\<lparr>currentState := s,
                       trace := trace st @ Accepted action # map (Called n) (listeners st)\<rparr>) \<and>
         (st = run_events R' B' n' cs (createStore s0) \<and>
          (distinct (map listener (subscriptions st)) \<or>
           list_all isSubscribed (subscriptions st)) \<longrightarrow>
            listeners st = map listener (filter isSubscribed (subscriptions st)))"
proof -
  let ?st = "st\<lparr>currentState := s, trace := trace st @ [Accepted action]\<rparr>"
  have "\<forall>j. 0 \<le> j \<and> j < length (listeners st) \<and> j < length (listeners ?st) \<longrightarrow>
       (\<forall>st'. \<forall>c\<in>set (B (listeners ?st ! j) st'). idle (subscriptions ?st) c)"
  proof (intro allI impI ballI)
    fix j st' c
    assume j: "0 \<le> j \<and> j < length (listeners st) \<and> j < length (listeners ?st)"
      and c: "c \<in> set (B (listeners ?st ! j) st')"
    from j have "listeners st ! j \<in> set (listeners st)" by simp
    with assms(2) c show "idle (subscriptions ?st) c" by auto
  qed
  from forEach_idle [OF this] assms(1)
  have "dispatch R B (Suc n) action st =
           (Normal, st\<lparr>currentState := s,
                       trace := trace st @ Accepted action # map (Called n) (listeners st)\<rparr>)"
    by simp
  moreover have "listeners st = map listener (filter isSubscribed (subscriptions st))"
    if "st = run_events R' B' n' cs (createStore s0)"
      and "distinct (map listener (subscriptions st)) \<or> list_all isSubscribed (subscriptions st)"
    using that unique_in_order [of st R' B' n' cs s0] live_in_order [of st R' B' n' cs s0]
    by blast
  ultimately show ?thesis by blast
qed

theorem dispatch_notifies_each_once_witness:
  "count_actions (currentState three_listeners) () = Inr 1 \<and>
   three_listeners = run_events count_actions readers 0 (map Subscribe [0, 1, 2]) (createStore 0) \<and>
   distinct (map listener (subscriptions three_listeners)) \<and>
   listeners three_listeners = [0, 1, 2] \<and>
   map listener (filter isSubscribed (subscriptions three_listeners)) = [0, 1, 2] \<and>
   dispatch count_actions readers (Suc 0) () three_listeners =
     (Normal, three_listeners\<lparr>currentState := 1,
                trace := [Accepted (), Called 0 0, Called 0 1, Called 0 2]\<rparr>)"
proof -
  have r: "count_actions (currentState three_listeners) () = Inr 1"
    by (simp add: count_actions_def pure_reducer_def three_listeners_def two_listeners_def
        subscribe_def createStore_def)
  have b: "\<forall>f\<in>set (listeners three_listeners). \<forall>st'. \<forall>c\<in>set (readers f st').
      idle (subscriptions three_listeners) c"
    by (simp add: readers_def)
  have l: "listeners three_listeners = [0, 1, 2]" and t: "trace three_listeners = []"
    and s: "subscriptions three_listeners =
      [\<lparr>listener = 0, isSubscribed = True\<rparr>, \<lparr>listener = 1, isSubscribed = True\<rparr>,
       \<lparr>listener = 2, isSubscribed = True\<rparr>]"
    by (simp_all add: three_listeners_def two_listeners_def subscribe_def createStore_def)
  have e: "three_listeners =
      run_events count_actions readers 0 (map Subscribe [0, 1, 2]) (createStore 0)"
    by (simp add: three_listeners_def two_listeners_def run_events_def)
  have d: "distinct (map listener (subscriptions three_listeners))"
    by (simp add: s)
  from dispatch_notifies_each_once
    [where R = count_actions and st = three_listeners and B = readers and n = 0
       and R' = count_actions and B' = readers and n' = 0 and cs = "map Subscribe [0, 1, 2]"
       and ?s0.0 = 0, OF r b]
    e d
  have "dispatch count_actions readers (Suc 0) () three_listeners =
      (Normal, three_listeners\<lparr>currentState := 1,
         trace := trace three_listeners @ Accepted () # map (Called 0) (listeners three_listeners)\<rparr>)"
    and "listeners three_listeners =
      map listener (filter isSubscribed (subscriptions three_listeners))"
    by blast+
  with r e d l t show ?thesis by simp
qed

text \<open>
  C10, as stated, fails. With the callbacks \<open>0\<close> and \<open>1\<close> registered, let \<open>0\<close> call
  its own handle and then subscribe the new callback \<open>7\<close>. The removal shifts the array,
  \<open>7\<close> lands at index \<open>1\<close>, below the length read when the loop began, and the same
  pass calls it (and never calls \<open>1\<close>).
\<close>

theorem subscribed_during_pass_is_called:
  "listeners two_listeners = [0, 1] \<and>
   replacing 0 two_listeners = [Unsubscribe 0, Subscribe 7] \<and>
   fst (dispatch count_actions replacing 1 () two_listeners) = Normal \<and>
   trace (snd (dispatch count_actions replacing 1 () two_listeners)) =
     [Accepted (), Called 0 0, Called 0 7]"
  by (simp add: two_listeners_def subscribe_def createStore_def unsubscribe_def
      splice_array_def replacing_def count_actions_def pure_reducer_def forEach.simps)

text \<open>
  C10, amended. When no callback calls a handle that is still subscribed, so that no
  listener is removed during the pass (the callbacks may read, subscribe, dispatch, call
  dead handles and throw), the pass of a dispatch calls only listeners of the slots that
  were present when it began, in order, and all of them when the dispatch returns
  normally: a listener subscribed during the pass is not called by that pass. The calls
  that the trace records for the pass of \<^verbatim>\<open>dispatch\<close> with room \<open>Suc n\<close> are those
  numbered \<open>n\<close>; the passes of dispatches nested in it have smaller numbers, and they do
  call the new listener. The collection afterwards begins with the old one, and when the
  registered callbacks only read or subscribe, callback \<open>f\<close> subscribing \<open>S f\<close>, it is
  the old one followed by the \<open>S f\<close> of each old listener in order: this is where later
  dispatches find the new listeners.
\<close>

theorem dispatch_notifies_snapshot:
  assumes "R (currentState st) action = Inr s"
    and "\<forall>f st' h. Unsubscribe h \<in> set (B f st') \<longrightarrow> dead h st"
  shows "\<exists>rest.
           trace (snd (dispatch R B (Suc n) action st)) = trace st @ Accepted action # rest \<and>
           prefix (calls_of n rest) (listeners st) \<and>
           (fst (dispatch R B (Suc n) action st) = Normal \<longrightarrow>
              calls_of n rest = listeners st) \<and>
           prefix (listeners st) (listeners (snd (dispatch R B (Suc n) action st))) \<and>
           ((\<forall>f\<in>set (listeners st). \<forall>st'.
                (\<forall>c\<in>set (B f st'). reads_or_subscribes c) \<and> subscribed (B f st') = S f) \<longrightarrow>
              listeners (snd (dispatch R B (Suc n) action st)) =
                listeners st @ concat (map S (listeners st)))"
proof -
  let ?st = "st\<lparr>currentState := s, trace := trace st @ [Accepted action]\<rparr>"
  let ?D = "{h. dead h st}"
  from assms(2) have nolive: "\<forall>f st' h. Unsubscribe h \<in> set (B f st') \<longrightarrow> h \<in> ?D"
    by simp
  have d: "\<forall>h\<in>?D. dead h ?st" by (simp add: dead_def)
  have len: "length (listeners st) \<le> length (listeners ?st)" by simp
  from pass_structure(2) [OF nolive d len, of R n 0]
  obtain rest where r: "trace (snd (forEach R B n 0 (length (listeners st)) ?st)) =
        trace ?st @ rest"
    and c: "prefix (calls_of n rest) (drop 0 (take (length (listeners st)) (listeners ?st)))"
    and c': "fst (forEach R B n 0 (length (listeners st)) ?st) = Normal \<longrightarrow>
        calls_of n rest = drop 0 (take (length (listeners st)) (listeners ?st))"
    and p: "prefix (listeners ?st) (listeners (snd (forEach R B n 0 (length (listeners st)) ?st)))"
    by blast
  have g: "listeners (snd (dispatch R B (Suc n) action st)) =
      listeners st @ concat (map S (listeners st))"
    if all: "\<forall>f\<in>set (listeners st). \<forall>st'.
      (\<forall>c\<in>set (B f st'). reads_or_subscribes c) \<and> subscribed (B f st') = S f"
  proof -
    from all have "\<forall>j. 0 \<le> j \<and> j < length (listeners st) \<longrightarrow>
       (\<forall>st'. \<forall>c\<in>set (B (listeners ?st ! j) st'). reads_or_subscribes c)"
      by (simp add: all_set_conv_all_nth)
    from forEach_grow [OF len this, of R n S]
    obtain new where f: "forEach R B n 0 (length (listeners st)) ?st =
         (Normal,
          grow new (?st\<lparr>trace := trace ?st @
            map (Called n) (drop 0 (take (length (listeners st)) (listeners ?st)))\<rparr>))"
      and n: "(\<forall>j st'. 0 \<le> j \<and> j < length (listeners st) \<longrightarrow>
          subscribed (B (listeners ?st ! j) st') = S (listeners ?st ! j)) \<longrightarrow>
       new = concat (map S (drop 0 (take (length (listeners st)) (listeners ?st))))"
      by blast
    from all have "\<forall>j st'. 0 \<le> j \<and> j < length (listeners st) \<longrightarrow>
          subscribed (B (listeners ?st ! j) st') = S (listeners ?st ! j)"
      by (simp add: all_set_conv_all_nth)
    with n have "new = concat (map S (listeners st))" by simp
    with f assms(1) show ?thesis by (simp add: grow_def)
  qed
  from r c c' p g assms(1) show ?thesis
    by (intro exI [of _ rest]) simp
qed

theorem dispatch_notifies_snapshot_witness:
  "count_actions (currentState two_listeners) () = Inr 1 \<and>
   nesting 0 (two_listeners\<lparr>trace := [Accepted (), Called 1 0]\<rparr>) = [Subscribe 7, Dispatch ()] \<and>
   dispatch count_actions nesting (Suc 1) () two_listeners =
     (Normal,
      grow [7] (two_listeners\<lparr>currentState := 2,
        trace := [Accepted (), Called 1 0, Accepted (), Called 0 0, Called 0 1, Called 0 7,
                  Called 1 1]\<rparr>)) \<and>
   calls_of 1 [Called 1 0, Accepted (), Called 0 0, Called 0 1, Called 0 7, Called 1 1 :: unit event] =
     listeners two_listeners"
proof -
  have r: "count_actions (currentState two_listeners) () = Inr 1"
    by (simp add: count_actions_def pure_reducer_def two_listeners_def subscribe_def
        createStore_def)
  have b: "\<forall>f st' h. Unsubscribe h \<in> set (nesting f st') \<longrightarrow> dead h two_listeners"
    by (simp add: nesting_def)
  have e: "dispatch count_actions nesting (Suc 1) () two_listeners =
     (Normal,
      grow [7] (two_listeners\<lparr>currentState := 2,
        trace := [Accepted (), Called 1 0, Accepted (), Called 0 0, Called 0 1, Called 0 7,
                  Called 1 1]\<rparr>))"
    by (simp add: two_listeners_def subscribe_def createStore_def nesting_def grow_def
        count_actions_def pure_reducer_def forEach.simps)
  show ?thesis
    using r e dispatch_notifies_snapshot
        [where R = count_actions and st = two_listeners and B = nesting and n = 1, OF r b]
    by (simp add: nesting_def two_listeners_def subscribe_def createStore_def)
qed

text \<open>
  C1, as stated, fails. With the callbacks \<open>0\<close>, \<open>1\<close>, \<open>2\<close> registered, let \<open>0\<close>
  call its own handle and the others do nothing. The removal moves \<open>1\<close> to index \<open>0\<close>,
  which the loop has already visited: the pass calls \<open>0\<close> and \<open>2\<close>, and \<open>1\<close>,
  registered before the dispatch began, is not called.
\<close>

theorem self_unsubscribe_skips_a_listener:
  "listeners three_listeners = [0, 1, 2] \<and>
   self_removing 0 three_listeners = [Unsubscribe 0] \<and>
   fst (dispatch count_actions self_removing 1 () three_listeners) = Normal \<and>
   trace (snd (dispatch count_actions self_removing 1 () three_listeners)) =
     [Accepted (), Called 0 0, Called 0 2]"
  by (simp add: three_listeners_def two_listeners_def subscribe_def createStore_def
      unsubscribe_def splice_array_def self_removing_def count_actions_def pure_reducer_def
      forEach.simps)

text \<open>
  C1, amended. Let the listener in slot \<open>i\<close> call its own handle \<open>h\<close>, which is
  still subscribed, and otherwise only read; let that slot be the first one holding its
  callback, and let every other registered callback only read. Then the pass calls the listeners of the slots up to
  \<open>i\<close> and of the slots from \<open>i + 2\<close> on, each once and in order: every listener
  registered before the dispatch is still called except the one in the slot right after
  the listener that removed itself, which the pass skips. The collection afterwards is the
  old one without slot \<open>i\<close>.
\<close>

theorem self_unsubscribe_skips_next:
  assumes red: "R (currentState st) action = Inr s"
    and i: "i < length (listeners st)"
    and first: "listeners st ! i \<notin> set (take i (listeners st))"
    and h: "h < length (subscriptions st)"
    and live: "subscriptions st ! h = \<lparr>listener = listeners st ! i, isSubscribed = True\<rparr>"
    and body: "\<forall>st'. Unsubscribe h \<in> set (B (listeners st ! i) st')"
      "\<forall>st'. \<forall>c\<in>set (B (listeners st ! i) st'). c = Unsubscribe h \<or> reads c"
    and others: "\<forall>g\<in>set (listeners st). g \<noteq> listeners st ! i \<longrightarrow>
      (\<forall>st'. \<forall>c\<in>set (B g st'). reads c)"
  shows "dispatch R B (Suc n) action st =
           (Normal,
            st\<lparr>currentState := s,
               trace := trace st @ Accepted action #
                 map (Called n) (take (Suc i) (listeners st) @ drop (Suc (Suc i)) (listeners st)),
               listeners := take i (listeners st) @ drop (Suc i) (listeners st),
               subscriptions :=
                 (subscriptions st)[h := \<lparr>listener = listeners st ! i, isSubscribed = False\<rparr>]\<rparr>)"
proof -
  let ?ls = "listeners st"
  let ?f = "?ls ! i"
  let ?N = "length ?ls"
  let ?st1 = "st\<lparr>currentState := s, trace := trace st @ [Accepted action]\<rparr>"
  let ?st2 = "?st1\<lparr>trace := trace ?st1 @ map (Called n) (take i ?ls)\<rparr>"
  let ?st3 = "?st2\<lparr>trace := trace ?st2 @ [Called n ?f]\<rparr>"
  let ?st4 = "?st3\<lparr>subscriptions := (subscriptions st)[h := \<lparr>listener = ?f, isSubscribed = False\<rparr>],
                  listeners := take i ?ls @ drop (Suc i) ?ls\<rparr>"
  have d: "dispatch R B (Suc n) action st = forEach R B n 0 ?N ?st1"
    using red by simp
  have p1: "forEach R B n 0 i ?st1 = (Normal, ?st2)"
  proof -
    have "\<forall>j. 0 \<le> j \<and> j < i \<and> j < length (listeners ?st1) \<longrightarrow>
        (\<forall>st'. \<forall>c\<in>set (B (listeners ?st1 ! j) st'). idle (subscriptions ?st1) c)"
    proof (intro allI impI ballI)
      fix j st' c
      assume j: "0 \<le> j \<and> j < i \<and> j < length (listeners ?st1)"
        and c: "c \<in> set (B (listeners ?st1 ! j) st')"
      from j i have "take i ?ls ! j \<in> set (take i ?ls)" by (intro nth_mem) simp
      with j have "?ls ! j \<in> set (take i ?ls)" by simp
      with first have "?ls ! j \<noteq> ?f" by auto
      moreover from j have "?ls ! j \<in> set ?ls" by simp
      ultimately have "reads c" using others c by auto
      then show "idle (subscriptions ?st1) c" by (rule reads_idle)
    qed
    from forEach_idle [OF this] i show ?thesis by simp
  qed
  have mem: "?f \<in> set ?ls" using i by simp
  have u: "unsubscribe h ?st3 = (Normal, ?st4)"
    using h live i mem first_occurrence_remove1 [OF i first]
    by (simp add: unsubscribe_def splice_indexOf_in)
  have e: "exec R B n (B ?f ?st3) ?st3 = (Normal, ?st4)"
    using exec_self_unsubscribe [of h ?st3 "B ?f ?st3" R B n] u h body by simp
  have p2: "forEach R B n (Suc i) ?N ?st4 =
      (Normal, ?st4\<lparr>trace := trace ?st4 @
         map (Called n) (drop (Suc i) (take ?N (listeners ?st4)))\<rparr>)"
  proof (rule forEach_idle, intro allI impI ballI)
    fix j st' c
    assume j: "Suc i \<le> j \<and> j < ?N \<and> j < length (listeners ?st4)"
      and c: "c \<in> set (B (listeners ?st4 ! j) st')"
    from j have "j < length (listeners ?st4)" by blast
    then have "listeners ?st4 ! j \<in> set (listeners ?st4)" by (rule nth_mem)
    then have in_ls: "listeners ?st4 ! j \<in> set ?ls"
      by (auto dest: in_set_takeD in_set_dropD)
    show "idle (subscriptions ?st4) c"
    proof (cases "listeners ?st4 ! j = ?f")
      case True
      with c body(2) have "c = Unsubscribe h \<or> reads c" by auto
      with h show ?thesis by (auto simp: reads_idle)
    next
      case False
      with in_ls others c have "reads c" by auto
      then show ?thesis by (rule reads_idle)
    qed
  qed
  have "forEach R B n 0 ?N ?st1 =
      (case forEach R B n 0 i ?st1 of
         (Normal, st') \<Rightarrow> forEach R B n i ?N st'
       | (Throw e, st') \<Rightarrow> (Throw e, st'))"
    using i by (intro forEach_split) simp_all
  also have "\<dots> = forEach R B n i ?N ?st2" by (simp add: p1)
  also have "\<dots> = forEach R B n (Suc i) ?N ?st4"
    using i e by (simp add: forEach_step)
  also note p2
  finally show ?thesis
    using d i by (simp add: take_Suc_conv_app_nth)
qed

theorem self_unsubscribe_skips_next_witness:
  "count_actions (currentState three_listeners) () = Inr 1 \<and>
   (0::nat) < length (listeners three_listeners) \<and>
   listeners three_listeners ! 0 \<notin> set (take 0 (listeners three_listeners)) \<and>
   (0::nat) < length (subscriptions three_listeners) \<and>
   subscriptions three_listeners ! 0 = \<lparr>listener = 0, isSubscribed = True\<rparr> \<and>
   Unsubscribe 0 \<in> set (self_removing 0 three_listeners) \<and>
   trace (snd (dispatch count_actions self_removing (Suc 0) () three_listeners)) =
     [Accepted (), Called 0 0, Called 0 2] \<and>
   listeners (snd (dispatch count_actions self_removing (Suc 0) () three_listeners)) = [1, 2]"
proof -
  have l: "listeners three_listeners = [0, 1, 2]" and t: "trace three_listeners = []"
    and s: "subscriptions three_listeners =
      [\<lparr>listener = 0, isSubscribed = True\<rparr>, \<lparr>listener = 1, isSubscribed = True\<rparr>,
       \<lparr>listener = 2, isSubscribed = True\<rparr>]"
    by (simp_all add: three_listeners_def two_listeners_def subscribe_def createStore_def)
  have r: "count_actions (currentState three_listeners) () = Inr 1"
    by (simp add: count_actions_def pure_reducer_def three_listeners_def two_listeners_def
        subscribe_def createStore_def)
  have i: "0 < length (listeners three_listeners)"
    and first: "listeners three_listeners ! 0 \<notin> set (take 0 (listeners three_listeners))"
    and h: "0 < length (subscriptions three_listeners)"
    and live: "subscriptions three_listeners ! 0 =
      \<lparr>listener = listeners three_listeners ! 0, isSubscribed = True\<rparr>"
    and body: "\<forall>st'. Unsubscribe 0 \<in> set (self_removing (listeners three_listeners ! 0) st')"
      "\<forall>st'. \<forall>c\<in>set (self_removing (listeners three_listeners ! 0) st').
         c = Unsubscribe 0 \<or> reads c"
    and others: "\<forall>g\<in>set (listeners three_listeners). g \<noteq> listeners three_listeners ! 0 \<longrightarrow>
      (\<forall>st'. \<forall>c\<in>set (self_removing g st'). reads c)"
    by (simp_all add: l s self_removing_def)
  show ?thesis
    using r self_unsubscribe_skips_next
        [where R = count_actions and st = three_listeners and B = self_removing and n = 0
           and i = 0 and h = 0, OF r i first h live body others]
    by (simp add: l s t self_removing_def)
qed



text \<open>
  C5, as stated, fails. On the store of the sample application, dispatching an action
  whose type the reducer does not know is accepted, and the reducer's default branch
  returns the reference it was given: \<^verbatim>\<open>getState()\<close> is the same reference before and
  after.
\<close>

theorem unknown_action_keeps_reference:
  "ref (getState todo_store) = Some 0 \<and>
   dispatch reducer no_callbacks 1 PING todo_store =
     (Normal, todo_store\<lparr>trace := [Accepted PING]\<rparr>) \<and>
   ref (getState (snd (dispatch reducer no_callbacks 1 PING todo_store))) = Some 0"
  by (simp add: todo_store_def createStore_def getState_def reducer_def PING_def ADD_TODO_def
      forEach.simps)

text \<open>
  C5, amended. After an accepted dispatch during which no callback dispatches, the state
  held is the value that the transition function returned for the action, so its identity
  changes exactly when the transition function returns a reference other than the one it
  was given. With the sample reducer: when the state is a valid reference, after a
  dispatch of \<^verbatim>\<open>ADD_TODO\<close> the reference differs from the one before, whatever the
  callbacks do, and after a dispatch of any other action type, when no callback
  dispatches, the state is the same reference (and the same heap) as before; when the
  state is \<^verbatim>\<open>undefined\<close>, the default parameter allocates an array, and after a
  dispatch of any action the state is a reference.
\<close>

theorem dispatch_reducer_reference:
  "((\<forall>f st'. \<forall>c\<in>set (B f st'). \<not> dispatches c) \<longrightarrow> R (currentState st) action = Inr s \<longrightarrow>
      getState (snd (dispatch R B (Suc n) action st)) = s) \<and>
   (ref (getState st0) = Some r \<and> r < length (heap (getState st0)) \<and> type todo = ADD_TODO \<longrightarrow>
      ref (getState (snd (dispatch reducer B0 (Suc n) todo st0))) \<noteq> ref (getState st0)) \<and>
   (ref (getState st0) = Some r \<and> type todo \<noteq> ADD_TODO \<and>
    (\<forall>f st'. \<forall>c\<in>set (B0 f st'). \<not> dispatches c) \<longrightarrow>
      getState (snd (dispatch reducer B0 (Suc n) todo st0)) = getState st0) \<and>
   (ref (getState st0) = None \<longrightarrow>
      ref (getState (snd (dispatch reducer B0 (Suc n) todo st0))) \<noteq> None)"
proof (intro conjI impI)
  assume "\<forall>f st'. \<forall>c\<in>set (B f st'). \<not> dispatches c" and "R (currentState st) action = Inr s"
  then show "getState (snd (dispatch R B (Suc n) action st)) = s"
    unfolding getState_def by (rule dispatch_result_state)
next
  assume a: "ref (getState st0) = Some r \<and> r < length (heap (getState st0)) \<and>
    type todo = ADD_TODO"
  let ?s = "\<lparr>heap = heap (currentState st0) @ [heap (currentState st0) ! r @ [payload todo]],
            ref = Some (length (heap (currentState st0)))\<rparr>"
  let ?st = "st0\<lparr>currentState := ?s, trace := trace st0 @ [Accepted todo]\<rparr>"
  from a have red: "reducer (currentState st0) todo = Inr ?s"
    by (simp add: reducer_add getState_def)
  from a have "beyond r ?st" by (simp add: beyond_def getState_def)
  then have "beyond r (snd (forEach reducer B0 n 0 (length (listeners st0)) ?st))"
    by (rule beyond_forEach)
  with red have "beyond r (snd (dispatch reducer B0 (Suc n) todo st0))" by simp
  with a show "ref (getState (snd (dispatch reducer B0 (Suc n) todo st0))) \<noteq>
      ref (getState st0)"
    by (auto simp: beyond_def getState_def split: option.splits)
next
  assume a: "ref (getState st0) = Some r \<and> type todo \<noteq> ADD_TODO \<and>
    (\<forall>f st'. \<forall>c\<in>set (B0 f st'). \<not> dispatches c)"
  then have "reducer (currentState st0) todo = Inr (currentState st0)"
    by (simp add: reducer_other getState_def)
  with a show "getState (snd (dispatch reducer B0 (Suc n) todo st0)) = getState st0"
    unfolding getState_def by (intro dispatch_result_state) simp_all
next
  assume a: "ref (getState st0) = None"
  from a have "\<exists>s'. reducer (currentState st0) todo = Inr s' \<and> ref s' \<noteq> None"
    by (cases "type todo = ADD_TODO") (simp_all add: reducer_def alloc_def getState_def)
  then obtain s' where red: "reducer (currentState st0) todo = Inr s'" and d: "ref s' \<noteq> None"
    by blast
  let ?st = "st0\<lparr>currentState := s', trace := trace st0 @ [Accepted todo]\<rparr>"
  from d have "ref (currentState ?st) \<noteq> None" by simp
  then have "ref (currentState (snd (forEach reducer B0 n 0 (length (listeners st0)) ?st))) \<noteq>
      None"
    by (rule defined_forEach)
  with red show "ref (getState (snd (dispatch reducer B0 (Suc n) todo st0))) \<noteq> None"
    by (simp add: getState_def)
qed

theorem dispatch_reducer_reference_witness:
  "ref (getState todo_store) = Some 0 \<and>
   (0::nat) < length (heap (getState todo_store)) \<and>
   type (addTodo ''x'') = ADD_TODO \<and>
   type PING \<noteq> ADD_TODO \<and>
   ref (getState (snd (dispatch reducer no_callbacks (Suc 0) (addTodo ''x'') todo_store))) \<noteq>
     ref (getState todo_store) \<and>
   getState (snd (dispatch reducer no_callbacks (Suc 0) PING todo_store)) = getState todo_store \<and>
   ref (getState undefined_store) = None \<and>
   ref (getState (snd (dispatch reducer no_callbacks (Suc 0) PING undefined_store))) \<noteq> None"
proof -
  have a: "ref (getState todo_store) = Some 0"
    and b: "(0::nat) < length (heap (getState todo_store))"
    and u: "ref (getState undefined_store) = None"
    by (simp_all add: todo_store_def undefined_store_def createStore_def getState_def)
  have q: "\<forall>f st'. \<forall>c\<in>set (no_callbacks f st'). \<not> dispatches c"
    by (simp add: no_callbacks_def)
  have t: "type (addTodo ''x'') = ADD_TODO" and p: "type PING \<noteq> ADD_TODO"
    by (simp_all add: addTodo_def PING_def ADD_TODO_def)
  have 1: "ref (getState (snd (dispatch reducer no_callbacks (Suc 0) (addTodo ''x'') todo_store))) \<noteq>
     ref (getState todo_store)"
    by (rule dispatch_reducer_reference
        [where ?st0.0 = todo_store and r = 0 and todo = "addTodo ''x''"
           and ?B0.0 = no_callbacks and n = 0,
         THEN conjunct2, THEN conjunct1, THEN mp])
      (intro conjI a b t)
  have 2: "getState (snd (dispatch reducer no_callbacks (Suc 0) PING todo_store)) =
      getState todo_store"
    by (rule dispatch_reducer_reference
        [where ?st0.0 = todo_store and r = 0 and todo = PING and ?B0.0 = no_callbacks and n = 0,
         THEN conjunct2, THEN conjunct2, THEN conjunct1, THEN mp])
      (intro conjI a p q)
  have 3: "ref (getState (snd (dispatch reducer no_callbacks (Suc 0) PING undefined_store))) \<noteq>
      None"
    by (rule dispatch_reducer_reference
        [where ?st0.0 = undefined_store and todo = PING and ?B0.0 = no_callbacks and n = 0,
         THEN conjunct2, THEN conjunct2, THEN conjunct2, THEN mp])
      (rule u)
  from a b t p u 1 2 3 show ?thesis by simp
qed

text \<open>
  C4, as stated, fails. A connected instance with no store in its context renders to the
  engine's error for reading a property of \<^verbatim>\<open>undefined\<close>: the code has no check of the
  context and no error of its own for a missing Provider.
\<close>

theorem render_orphan_type_error:
  "context_store orphan = None \<and>
   render state_props dispatch_props plain_view orphan = Inl TypeError"
  by (simp add: orphan_def render_def)

text \<open>
  C4, amended. For every connected instance with no store in its context, and whatever the
  mapping functions are, \<^verbatim>\<open>render\<close> fails at once, before either mapping function is
  called, with the \<open>TypeError\<close> of the access \<^verbatim>\<open>this.context.store.getState\<close>; were
  \<^verbatim>\<open>componentDidMount\<close> reached, it would fail in the same way at
  \<^verbatim>\<open>this.context.store.subscribe\<close>.
\<close>

theorem render_without_provider:
  "context_store this = None \<Longrightarrow>
     render mapStateToProps mapDispatchToProps Component this = Inl TypeError \<and>
     componentDidMount handleChange this = Inl TypeError"
  by (simp add: render_def componentDidMount_def)

theorem render_without_provider_witness:
  "context_store orphan = None \<and>
   render state_props dispatch_props plain_view orphan = Inl TypeError \<and>
   componentDidMount 5 orphan = Inl TypeError"
proof -
  have n: "context_store orphan = None" by (simp add: orphan_def)
  show ?thesis
    using n render_without_provider [OF n, of state_props dispatch_props plain_view 5] by simp
qed

text \<open>
  C6, as stated, fails. The instance has the own prop \<open>extra\<close>, and neither mapping
  function returns it: the element that \<^verbatim>\<open>render\<close> returns has no prop \<open>extra\<close>. The
  own props are arguments of the mapping functions and are not spread into the element.
\<close>

theorem render_drops_own_props:
  "props provided ''extra'' = Some (Value ''own'') \<and>
   render state_props dispatch_props plain_view provided =
     Inr (plain_view,
          [''todos'' \<mapsto> Value ''from state'', ''title'' \<mapsto> Value ''from dispatch'']) \<and>
   [''todos'' \<mapsto> Value ''from state'', ''title'' \<mapsto> Value ''from dispatch''] ''extra'' =
     (None :: string jsval option)"
  by (auto simp: provided_def render_def state_props_def dispatch_props_def createElement_def
      plain_view_def RESERVED_PROPS_def fun_eq_iff)

text \<open>
  C6, amended. On every render with a store in the context and mapping functions that
  return, the element of the wrapped view is created from exactly the derived props: the
  fragment of \<^verbatim>\<open>mapStateToProps\<close> (computed from the store's state and the own props)
  overlaid by the fragment of \<^verbatim>\<open>mapDispatchToProps\<close> (computed from \<^verbatim>\<open>dispatch\<close> and
  the own props), the second taking precedence on a name that both supply. The own props
  are not spread into the element: an own prop reaches the view only when a mapping
  function copies it. Of the derived props the view receives those whose name React does
  not reserve (\<^verbatim>\<open>key\<close>, \<^verbatim>\<open>ref\<close>, \<^verbatim>\<open>__self\<close>, \<^verbatim>\<open>__source\<close>), and where a derived prop
  is absent or \<^verbatim>\<open>undefined\<close> it receives the default that the view declares for that
  name, if any.
\<close>

theorem render_passes_derived_props:
  assumes "context_store this = Some st"
    and "mapStateToProps (getState st) (props this) = Inr stateProps"
    and "mapDispatchToProps st (props this) = Inr dispatchProps"
  shows "render mapStateToProps mapDispatchToProps Component this =
           Inr (createElement Component (stateProps ++ dispatchProps)) \<and>
         fst (createElement Component (stateProps ++ dispatchProps)) = Component \<and>
         snd (createElement Component (stateProps ++ dispatchProps)) propName =
           (let derived =
              (if propName \<in> RESERVED_PROPS then None
               else case dispatchProps propName of
                      None \<Rightarrow> stateProps propName
                    | Some v \<Rightarrow> Some v)
            in case defaultProps Component propName of
                 None \<Rightarrow> derived
               | Some d \<Rightarrow>
                   (if derived = None \<or> derived = Some Undefined then Some d else derived))"
  using assms by (simp add: render_def createElement_def map_add_def Let_def)

theorem render_passes_derived_props_witness:
  "context_store provided = Some two_listeners \<and>
   keyed_props (getState two_listeners) (props provided) =
     Inr [''key'' \<mapsto> Value ''k1'', ''title'' \<mapsto> Value ''from state'', ''label'' \<mapsto> Undefined] \<and>
   dispatch_props two_listeners (props provided) = Inr [''title'' \<mapsto> Value ''from dispatch''] \<and>
   defaultProps labelled_view ''label'' = Some (Value ''none'') \<and>
   map (snd (createElement labelled_view
          ([''key'' \<mapsto> Value ''k1'', ''title'' \<mapsto> Value ''from state'', ''label'' \<mapsto> Undefined] ++
           [''title'' \<mapsto> Value ''from dispatch''])))
     [''title'', ''key'', ''label'', ''extra''] =
     [Some (Value ''from dispatch''), None, Some (Value ''none''), None] \<and>
   render keyed_props dispatch_props labelled_view provided =
     Inr (createElement labelled_view
          ([''key'' \<mapsto> Value ''k1'', ''title'' \<mapsto> Value ''from state'', ''label'' \<mapsto> Undefined] ++
           [''title'' \<mapsto> Value ''from dispatch'']))"
proof -
  have c: "context_store provided = Some two_listeners" by (simp add: provided_def)
  have m: "keyed_props (getState two_listeners) (props provided) =
      Inr [''key'' \<mapsto> Value ''k1'', ''title'' \<mapsto> Value ''from state'', ''label'' \<mapsto> Undefined]"
    by (simp add: keyed_props_def)
  have d: "dispatch_props two_listeners (props provided) =
      Inr [''title'' \<mapsto> Value ''from dispatch'']"
    by (simp add: dispatch_props_def)
  have l: "defaultProps labelled_view ''label'' = Some (Value ''none'')"
    "defaultProps labelled_view ''title'' = None"
    "defaultProps labelled_view ''key'' = None"
    "defaultProps labelled_view ''extra'' = None"
    by (simp_all add: labelled_view_def)
  note t = render_passes_derived_props
    [where mapStateToProps = keyed_props and mapDispatchToProps = dispatch_props
       and Component = labelled_view, OF c m d]
  show ?thesis
    using c m d l t [of "''title''"] t [of "''key''"] t [of "''label''"] t [of "''extra''"]
    by (simp add: RESERVED_PROPS_def)
qed

end
